theory Spec2Isabelle
  imports Main "HOL-Library.AList"
begin

section \<open>The quadratic model used by the generators\<close>

text \<open>
  The two generators of \<^verbatim>\<open>dimod/generators/anti_crossing.py\<close> build a
  \<^verbatim>\<open>BinaryQuadraticModel\<close> through four of its methods. The class itself lives in
  \<^verbatim>\<open>dimod/binary/binary_quadratic_model.py\<close>, which is not among the sources, so the
  class is modelled here from the data model of the specification: a variable type, a
  weight per node (0 when unset) and a weight per unordered pair of distinct nodes
  (absent when unset).

  Node labels are the natural numbers the generators produce (\<^verbatim>\<open>range(hf)\<close> and sums
  of its elements). Weights are the integers \<open>-1\<close>, \<open>0\<close> and \<open>1\<close> and their sums; the
  library stores them as floats, which represent these small integers exactly.
  Both weight tables are association lists in insertion order with distinct keys.
\<close>

datatype Vartype = SPIN | BINARY

record bqm =
  vartype :: Vartype
  linear :: "(nat \<times> int) list"
  quadratic :: "((nat \<times> nat) \<times> int) list"

text \<open>
  The exceptions. \<open>ValueError\<close> with its message is the one the generators raise
  themselves (the specification calls it InvalidArgument); \<open>EdgeEndpointsEqual\<close> is the
  failure of an edge operation called with \<open>i = j\<close>; \<open>OverflowError\<close> and
  \<open>ZeroDivisionError\<close> are the exceptions of the division \<^verbatim>\<open>/\<close> of two integers. A
  failure carries the model that was under construction when the exception was raised,
  \<open>None\<close> when no model had been constructed yet.
\<close>

datatype error = ValueError string | EdgeEndpointsEqual | OverflowError | ZeroDivisionError

type_synonym failure = "error \<times> bqm option"

text \<open>Sequencing: an exception of the first statement skips the rest.\<close>

fun then_do :: "'e + 'a \<Rightarrow> ('a \<Rightarrow> 'e + 'b) \<Rightarrow> 'e + 'b" where
  "then_do (Inl e) f = Inl e"
| "then_do (Inr x) f = f x"

text \<open>\<^verbatim>\<open>for x in xs: body\<close>, stopping at the first exception.\<close>

fun for_loop :: "('a \<Rightarrow> 's \<Rightarrow> 'e + 's) \<Rightarrow> 'a list \<Rightarrow> 's \<Rightarrow> 'e + 's" where
  "for_loop body [] s = Inr s"
| "for_loop body (x # xs) s =
     (case body x s of Inl e \<Rightarrow> Inl e | Inr s' \<Rightarrow> for_loop body xs s')"

text \<open>Modelled from the spec: the constructor of the missing class
  \<^verbatim>\<open>BinaryQuadraticModel\<close>, an empty model of the given variable type.\<close>

definition BinaryQuadraticModel :: "Vartype \<Rightarrow> bqm" where
  "BinaryQuadraticModel vt = \<lparr>vartype = vt, linear = [], quadratic = []\<rparr>"

text \<open>Modelled from the spec: reading a node weight of the missing class, 0 when unset.\<close>

definition get_linear :: "bqm \<Rightarrow> nat \<Rightarrow> int" where
  "get_linear m v = (case map_of (linear m) v of None \<Rightarrow> 0 | Some b \<Rightarrow> b)"

text \<open>Modelled from the spec: the key of an edge of the missing class, an unordered pair;
  \<open>(i, j)\<close> and \<open>(j, i)\<close> denote the same edge.\<close>

definition edge_key :: "nat \<Rightarrow> nat \<Rightarrow> nat \<times> nat" where
  "edge_key u v = (min u v, max u v)"

text \<open>Modelled from the spec: reading an edge weight of the missing class, absent when
  unset.\<close>

definition get_quadratic :: "bqm \<Rightarrow> nat \<Rightarrow> nat \<Rightarrow> int option" where
  "get_quadratic m u v = map_of (quadratic m) (edge_key u v)"

text \<open>Modelled from the spec: \<^verbatim>\<open>setNodeWeight(i, w)\<close> of the missing class (overwrite).\<close>

definition set_linear :: "bqm \<Rightarrow> nat \<Rightarrow> int \<Rightarrow> bqm" where
  "set_linear m v b = m\<lparr>linear := AList.update v b (linear m)\<rparr>"

text \<open>Modelled from the spec: \<^verbatim>\<open>addNodeWeight(i, delta)\<close> of the missing class
  (accumulate, an absent weight counting as 0).\<close>

definition add_linear :: "bqm \<Rightarrow> nat \<Rightarrow> int \<Rightarrow> bqm" where
  "add_linear m v b = m\<lparr>linear := AList.update v (get_linear m v + b) (linear m)\<rparr>"

text \<open>Modelled from the spec: an edge operation of the missing class makes both endpoints
  nodes of the model, with the default weight 0 when they are new. (The docstring of
  \<^verbatim>\<open>anti_crossing_clique\<close> lists the node weights of the 6-variable model as
  \<^verbatim>\<open>[1.0, 0.0, 1.0]\<close> followed by \<^verbatim>\<open>-1.0\<close> only, which is the insertion order
  that results.)\<close>

definition add_variable :: "bqm \<Rightarrow> nat \<Rightarrow> bqm" where
  "add_variable m v = m\<lparr>linear := AList.update v (get_linear m v) (linear m)\<rparr>"

text \<open>Modelled from the spec: \<^verbatim>\<open>setEdgeWeight(i, j, w)\<close> of the missing class
  (overwrite). Edges join distinct nodes, so equal endpoints fail.\<close>

definition set_quadratic :: "bqm \<Rightarrow> nat \<Rightarrow> nat \<Rightarrow> int \<Rightarrow> failure + bqm" where
  "set_quadratic m u v b =
     (if u = v then Inl (EdgeEndpointsEqual, Some m)
      else Inr ((add_variable (add_variable m u) v)
                  \<lparr>quadratic := AList.update (edge_key u v) b (quadratic m)\<rparr>))"

text \<open>Modelled from the spec: \<^verbatim>\<open>addEdgeWeight(i, j, delta)\<close> of the missing class
  (accumulate, an absent weight counting as 0; fails if \<open>i = j\<close>).\<close>

definition add_quadratic :: "bqm \<Rightarrow> nat \<Rightarrow> nat \<Rightarrow> int \<Rightarrow> failure + bqm" where
  "add_quadratic m u v b =
     (if u = v then Inl (EdgeEndpointsEqual, Some m)
      else Inr ((add_variable (add_variable m u) v)
                  \<lparr>quadratic := AList.update (edge_key u v)
                     ((case get_quadratic m u v of None \<Rightarrow> 0 | Some w \<Rightarrow> w) + b)
                     (quadratic m)\<rparr>))"

text \<open>Modelled from the spec: the energy of an assignment under a model of the missing
  class. A node weight contributes in proportion to the variable's value, an edge weight in
  proportion to the product of the two variables' values.\<close>

definition energy :: "bqm \<Rightarrow> (nat \<Rightarrow> int) \<Rightarrow> int" where
  "energy m s =
     (\<Sum>(v, b) \<leftarrow> linear m. b * s v) + (\<Sum>((u, v), b) \<leftarrow> quadratic m. b * s u * s v)"

text \<open>The nodes of a model, in insertion order.\<close>

definition variables :: "bqm \<Rightarrow> nat list" where
  "variables m = map fst (linear m)"

section \<open>The generators\<close>

text \<open>
  Lines 56 and 112 compute \<^verbatim>\<open>hf\<close> as \<^verbatim>\<open>int(num_variables / 2)\<close> and
  \<^verbatim>\<open>int(num_variables / 4)\<close>: a float division followed by truncation, not the integer
  division \<^verbatim>\<open>//\<close>. The two agree while the quotient is a float, which holds for the
  even sizes below \<open>2^54\<close>; above, the float division rounds (\<open>2^54 + 2\<close> is the first size
  whose half it changes), and it raises OverflowError once the quotient reaches about
  \<open>1.8 * 10^308\<close>.
\<close>

text \<open>The number of binary digits of a positive integer (\<^verbatim>\<open>int.bit_length\<close>).\<close>

function bit_length :: "int \<Rightarrow> nat" where
  "bit_length n = (if n \<le> 0 then 0 else Suc (bit_length (n div 2)))"
  by pat_completeness auto
termination
  by (relation "measure nat") auto

declare bit_length.simps [simp del]

text \<open>The integer nearest to \<open>p / q\<close> for \<open>q > 0\<close>, a tie going to the even neighbour: the
  rounding of IEEE 754 binary64 arithmetic.\<close>

definition round_half_even :: "int \<Rightarrow> int \<Rightarrow> int" where
  "round_half_even p q =
     (let f = p div q; r = p mod q
      in if 2 * r < q then f else if q < 2 * r then f + 1 else if even f then f else f + 1)"

text \<open>
  \<^verbatim>\<open>int(a / b)\<close> for integers \<open>a \<ge> 0\<close> and \<open>b > 0\<close>. The division \<^verbatim>\<open>/\<close> of two
  integers yields the float nearest to the exact quotient: with \<open>2^e \<le> a / b < 2^(e + 1)\<close>
  the quotient is rounded to a multiple \<open>M * 2^(e - 52)\<close> of the spacing of the floats of
  that size, and the division raises OverflowError when the rounded quotient reaches
  \<open>2^1024\<close>. \<^verbatim>\<open>int\<close> then drops the fraction. A quotient below 1 becomes 0, unless it
  is at least \<open>1 - 2^(-54)\<close> and so rounds to the float 1.
\<close>

definition float_quotient_trunc :: "int \<Rightarrow> int \<Rightarrow> error + int" where
  "float_quotient_trunc a b =
     (if a < b then Inr (if (2 ^ 54 - 1) * b \<le> 2 ^ 54 * a then 1 else 0)
      else
        let e = bit_length (a div b) - 1;
            M = (if e \<le> 52 then round_half_even (a * 2 ^ (52 - e)) b
                 else round_half_even a (b * 2 ^ (e - 52)))
        in if 1024 \<le> e \<or> (e = 1023 \<and> M = 2 ^ 53) then Inl OverflowError
           else Inr (if e \<le> 52 then M div 2 ^ (52 - e) else M * 2 ^ (e - 52)))"

text \<open>\<^verbatim>\<open>int(a / b)\<close> for any two integers: the sign is that of the exact quotient, and
  rounding and truncation act on the magnitude.\<close>

definition int_truediv :: "int \<Rightarrow> int \<Rightarrow> error + int" where
  "int_truediv a b =
     (if b = 0 then Inl ZeroDivisionError
      else case float_quotient_trunc \<bar>a\<bar> \<bar>b\<bar> of
             Inl e \<Rightarrow> Inl e
           | Inr t \<Rightarrow> Inr (sgn a * sgn b * t))"

text \<open>An exception raised by an expression while \<^verbatim>\<open>bqm\<close> is under construction.\<close>

fun raised_in :: "bqm \<Rightarrow> error + 'a \<Rightarrow> failure + 'a" where
  "raised_in bqm (Inl e) = Inl (e, Some bqm)"
| "raised_in bqm (Inr x) = Inr x"

text \<open>
  The generators. After the size check \<^verbatim>\<open>hf\<close> is positive, and the loops run over the
  natural numbers below it; node labels are natural numbers.
\<close>

text \<open>Lines 58-59: \<^verbatim>\<open>for m in range(n + 1, hf): bqm.add_quadratic(n, m, -1)\<close>.\<close>

definition clique_inner :: "nat \<Rightarrow> nat \<Rightarrow> bqm \<Rightarrow> failure + bqm" where
  "clique_inner hf n bqm = for_loop (\<lambda>m bqm. add_quadratic bqm n m (- 1)) [n + 1 ..< hf] bqm"

text \<open>Lines 58-64: the body of \<^verbatim>\<open>for n in range(hf)\<close>.\<close>

definition clique_body :: "nat \<Rightarrow> nat \<Rightarrow> bqm \<Rightarrow> failure + bqm" where
  "clique_body hf n bqm =
     then_do (clique_inner hf n bqm) (\<lambda>bqm.
     then_do (add_quadratic bqm n (n + hf) (- 1)) (\<lambda>bqm.
       let bqm = add_linear bqm n 1;
           bqm = add_linear bqm (n + hf) (- 1)
       in Inr bqm))"

definition anti_crossing_clique :: "int \<Rightarrow> failure + bqm" where
  "anti_crossing_clique num_variables =
     (if num_variables mod 2 \<noteq> 0 \<or> num_variables < 6
      then Inl (ValueError ''num_variables must be an even number >= 6'', None)
      else
        let bqm = BinaryQuadraticModel SPIN
        in then_do (raised_in bqm (int_truediv num_variables 2)) (\<lambda>hf.
           then_do (for_loop (clique_body (nat hf)) [0 ..< nat hf] bqm) (\<lambda>bqm.
             let bqm = set_linear bqm 1 0
             in Inr bqm)))"

text \<open>Lines 114-126: the body of \<^verbatim>\<open>for n in range(hf)\<close>. The body only runs for
  \<open>n < hf\<close>, so \<open>hf\<close> is positive in \<^verbatim>\<open>(n + 1) % hf\<close>.\<close>

definition loops_body :: "nat \<Rightarrow> nat \<Rightarrow> bqm \<Rightarrow> failure + bqm" where
  "loops_body hf n bqm =
     then_do (if n mod 2 = 1 then set_quadratic bqm n (n + hf) (- 1) else Inr bqm) (\<lambda>bqm.
     then_do (set_quadratic bqm n ((n + 1) mod hf) (- 1)) (\<lambda>bqm.
     then_do (set_quadratic bqm (n + hf) ((n + 1) mod hf + hf) (- 1)) (\<lambda>bqm.
     then_do (set_quadratic bqm n (n + 2 * hf) (- 1)) (\<lambda>bqm.
     then_do (set_quadratic bqm (n + hf) (n + 3 * hf) (- 1)) (\<lambda>bqm.
       let bqm = add_linear bqm n 1;
           bqm = add_linear bqm (n + hf) 1;
           bqm = add_linear bqm (n + 2 * hf) (- 1);
           bqm = add_linear bqm (n + 3 * hf) (- 1)
       in Inr bqm)))))"

definition anti_crossing_loops :: "int \<Rightarrow> failure + bqm" where
  "anti_crossing_loops num_variables =
     (if num_variables mod 2 \<noteq> 0 \<or> num_variables < 8
      then Inl (ValueError ''num_variables must be an even number >= 8'', None)
      else
        let bqm = BinaryQuadraticModel SPIN
        in then_do (raised_in bqm (int_truediv num_variables 4)) (\<lambda>hf.
           then_do (for_loop (loops_body (nat hf)) [0 ..< nat hf] bqm) (\<lambda>bqm.
             let bqm = set_linear bqm 0 0;
                 bqm = set_linear bqm (nat hf) 0
             in Inr bqm)))"

section \<open>Abstract view of a model\<close>

text \<open>
  The proofs read a model through its node set, its node weights (0 when unset), its edge
  set and its edge weights (0 when unset). \<open>models m R W K E\<close> says that \<open>m\<close> is a spin
  model with exactly these four components and without duplicate keys.
\<close>

definition nodes :: "bqm \<Rightarrow> nat set" where
  "nodes m = fst ` set (linear m)"

definition edges :: "bqm \<Rightarrow> (nat \<times> nat) set" where
  "edges m = fst ` set (quadratic m)"

definition edge_weight :: "bqm \<Rightarrow> nat \<times> nat \<Rightarrow> int" where
  "edge_weight m k = (case map_of (quadratic m) k of None \<Rightarrow> 0 | Some w \<Rightarrow> w)"

definition models ::
  "bqm \<Rightarrow> nat set \<Rightarrow> (nat \<Rightarrow> int) \<Rightarrow> (nat \<times> nat) set \<Rightarrow> (nat \<times> nat \<Rightarrow> int) \<Rightarrow> bool" where
  "models m R W K E \<longleftrightarrow>
     vartype m = SPIN \<and> distinct (map fst (linear m)) \<and> distinct (map fst (quadratic m)) \<and>
     nodes m = R \<and> get_linear m = W \<and> edges m = K \<and> edge_weight m = E"

text \<open>The weight function of a set of edges that all have weight \<open>-1\<close>.\<close>

definition ind :: "(nat \<times> nat) set \<Rightarrow> nat \<times> nat \<Rightarrow> int" where
  "ind K e = (if e \<in> K then - 1 else 0)"

subsection \<open>The state of \<^verbatim>\<open>anti_crossing_clique\<close> after \<open>k\<close> iterations\<close>

definition clique_nodes :: "nat \<Rightarrow> nat \<Rightarrow> nat set" where
  "clique_nodes h k = (if k = 0 then {} else {0 ..< h + k})"

definition clique_weights :: "nat \<Rightarrow> nat \<Rightarrow> nat \<Rightarrow> int" where
  "clique_weights h k v = (if v < k then 1 else if h \<le> v \<and> v < h + k then - 1 else 0)"

definition clique_edges :: "nat \<Rightarrow> nat \<Rightarrow> (nat \<times> nat) set" where
  "clique_edges h k = {(u, v). u < k \<and> u < v \<and> (v < h \<or> v = u + h)}"

definition clique_state :: "nat \<Rightarrow> nat \<Rightarrow> bqm \<Rightarrow> bool" where
  "clique_state h k m \<longleftrightarrow>
     models m (clique_nodes h k) (clique_weights h k) (clique_edges h k) (ind (clique_edges h k))"

definition clique_inner_state :: "nat \<Rightarrow> nat \<Rightarrow> nat \<Rightarrow> bqm \<Rightarrow> bool" where
  "clique_inner_state h n j m \<longleftrightarrow>
     models m (clique_nodes h n \<union> (if n + 1 < j then {n ..< j} else {})) (clique_weights h n)
       (clique_edges h n \<union> Pair n ` {n + 1 ..< j})
       (ind (clique_edges h n \<union> Pair n ` {n + 1 ..< j}))"

subsection \<open>The state of \<^verbatim>\<open>anti_crossing_loops\<close> after \<open>k\<close> iterations\<close>

definition loops_touch :: "nat \<Rightarrow> nat \<Rightarrow> nat set" where
  "loops_touch q n = {n, n + q, (n + 1) mod q, (n + 1) mod q + q, n + 2 * q, n + 3 * q}"

definition loops_nodes :: "nat \<Rightarrow> nat \<Rightarrow> nat set" where
  "loops_nodes q k = (\<Union>n \<in> {..<k}. loops_touch q n)"

definition loops_weights :: "nat \<Rightarrow> nat \<Rightarrow> nat \<Rightarrow> int" where
  "loops_weights q k v =
     (if v < k \<or> (q \<le> v \<and> v < q + k) then 1
      else if (2 * q \<le> v \<and> v < 2 * q + k) \<or> (3 * q \<le> v \<and> v < 3 * q + k) then - 1
      else 0)"

definition loops_step_edges :: "nat \<Rightarrow> nat \<Rightarrow> (nat \<times> nat) set" where
  "loops_step_edges q n =
     (if n mod 2 = 1 then {edge_key n (n + q)} else {}) \<union>
     {edge_key n ((n + 1) mod q), edge_key (n + q) ((n + 1) mod q + q),
      edge_key n (n + 2 * q), edge_key (n + q) (n + 3 * q)}"

definition loops_edges :: "nat \<Rightarrow> nat \<Rightarrow> (nat \<times> nat) set" where
  "loops_edges q k = (\<Union>n \<in> {..<k}. loops_step_edges q n)"

definition loops_state :: "nat \<Rightarrow> nat \<Rightarrow> bqm \<Rightarrow> bool" where
  "loops_state q k m \<longleftrightarrow>
     models m (loops_nodes q k) (loops_weights q k) (loops_edges q k) (ind (loops_edges q k))"

section \<open>The float division\<close>

lemma bit_length_less: "n < 2 ^ k \<Longrightarrow> bit_length n \<le> k"
proof (induction k arbitrary: n)
  case 0
  then show ?case by (simp add: bit_length.simps)
next
  case (Suc k)
  then have "n div 2 < 2 ^ k" by simp
  from Suc.IH [OF this] show ?case by (subst bit_length.simps) simp
qed

lemma bit_length_ge: "2 ^ k \<le> n \<Longrightarrow> k < bit_length n"
proof (induction k arbitrary: n)
  case 0
  then show ?case by (subst bit_length.simps) simp
next
  case (Suc k)
  then have "2 ^ k \<le> n div 2" by simp
  moreover have "0 < n" using Suc.prems by (smt (verit) zero_less_power)
  ultimately show ?case using Suc.IH [of "n div 2"] by (subst bit_length.simps) simp
qed

lemma bit_length_bounds:
  assumes "0 < n"
  shows "2 ^ (bit_length n - 1) \<le> n" and "n < 2 ^ bit_length n"
proof -
  show "n < 2 ^ bit_length n"
  proof (rule ccontr)
    assume "\<not> n < 2 ^ bit_length n"
    then have "2 ^ bit_length n \<le> n" by simp
    from bit_length_ge [OF this] show False by simp
  qed
  show "2 ^ (bit_length n - 1) \<le> n"
  proof (rule ccontr)
    assume "\<not> 2 ^ (bit_length n - 1) \<le> n"
    then have "n < 2 ^ (bit_length n - 1)" by simp
    from bit_length_less [OF this] have "bit_length n = 0" by simp
    moreover have "0 < bit_length n" using assms bit_length_ge [of 0 n] by simp
    ultimately show False by simp
  qed
qed

lemma bit_length_eqI: "2 ^ k \<le> n \<Longrightarrow> n < 2 ^ Suc k \<Longrightarrow> bit_length n = Suc k"
  using bit_length_ge [of k n] bit_length_less [of n "Suc k"] by simp

lemma round_half_even_dvd: "q dvd p \<Longrightarrow> 0 < q \<Longrightarrow> round_half_even p q = p div q"
  by (auto simp: round_half_even_def Let_def)

lemma round_half_even_ge: "p div q \<le> round_half_even p q"
  by (simp add: round_half_even_def Let_def)

lemma float_quotient_trunc_exact:
  assumes b: "0 < b" "b \<le> a" and e: "bit_length (a div b) - 1 \<le> 52"
    and d: "b dvd a * 2 ^ (52 - (bit_length (a div b) - 1))"
  shows "float_quotient_trunc a b = Inr (a div b)"
proof -
  define k where "k = 52 - (bit_length (a div b) - 1)"
  have "a * 2 ^ k div b div 2 ^ k = a * 2 ^ k div (b * 2 ^ k)"
    using b(1) by (simp add: zdiv_zmult2_eq)
  also have "\<dots> = a div b" by simp
  finally have "a * 2 ^ k div b div 2 ^ k = a div b" .
  then show ?thesis
    using b e d round_half_even_dvd [OF d b(1)]
    by (simp add: float_quotient_trunc_def Let_def k_def)
qed

lemma float_quotient_trunc_lower:
  assumes b: "0 < b" "b \<le> a" and r: "float_quotient_trunc a b = Inr t"
  shows "a div b \<le> t \<or> 2 ^ 52 \<le> t"
proof -
  define e where "e = bit_length (a div b) - 1"
  have pos: "0 < a div b" using b by (simp add: pos_imp_zdiv_pos_iff)
  show ?thesis
  proof (cases "e \<le> 52")
    case True
    define k where "k = 52 - e"
    have t: "t = round_half_even (a * 2 ^ k) b div 2 ^ k"
      using r b True by (auto simp: float_quotient_trunc_def Let_def e_def k_def split: if_splits)
    have "a * 2 ^ k div b div 2 ^ k = a * 2 ^ k div (b * 2 ^ k)"
      using b(1) by (simp add: zdiv_zmult2_eq)
    also have "\<dots> = a div b" by simp
    finally have "a div b = a * 2 ^ k div b div 2 ^ k" by simp
    also have "\<dots> \<le> t"
      unfolding t by (intro zdiv_mono1 round_half_even_ge) simp
    finally show ?thesis by simp
  next
    case False
    define j where "j = e - 52"
    have e: "e = 52 + j" using False by (simp add: j_def)
    have t: "t = round_half_even a (b * 2 ^ j) * 2 ^ j"
      using r b False by (auto simp: float_quotient_trunc_def Let_def e_def j_def split: if_splits)
    have "2 ^ e \<le> a div b"
      unfolding e_def using pos by (rule bit_length_bounds(1))
    then have "2 ^ 52 * 2 ^ j \<le> a div b" by (simp add: e power_add)
    then have "(2 ^ 52 * 2 ^ j) div 2 ^ j \<le> a div b div 2 ^ j"
      by (rule zdiv_mono1) simp
    then have "2 ^ 52 \<le> a div b div 2 ^ j" by simp
    also have "\<dots> = a div (b * 2 ^ j)" using b(1) by (simp add: zdiv_zmult2_eq)
    also have "\<dots> \<le> round_half_even a (b * 2 ^ j)" by (rule round_half_even_ge)
    finally have "2 ^ 52 \<le> round_half_even a (b * 2 ^ j)" .
    then have "2 ^ 52 * 1 \<le> round_half_even a (b * 2 ^ j) * 2 ^ j"
      by (intro mult_mono) simp_all
    then show ?thesis by (simp add: t)
  qed
qed


lemma float_quotient_trunc_cases:
  "float_quotient_trunc a b = Inl OverflowError \<or> (\<exists>t. float_quotient_trunc a b = Inr t)"
  by (simp add: float_quotient_trunc_def Let_def)

lemma int_truediv_cases:
  assumes "0 < b" "b \<le> a"
  shows "int_truediv a b = Inl OverflowError \<or>
         (\<exists>t. int_truediv a b = Inr t \<and> (a div b \<le> t \<or> 2 ^ 52 \<le> t))"
proof -
  have abs: "\<bar>a\<bar> = a" "\<bar>b\<bar> = b" "sgn a = 1" "sgn b = 1" using assms by simp_all
  from float_quotient_trunc_cases [of a b] show ?thesis
  proof
    assume "float_quotient_trunc a b = Inl OverflowError"
    then show ?thesis using assms by (simp add: int_truediv_def abs)
  next
    assume "\<exists>t. float_quotient_trunc a b = Inr t"
    then obtain t where t: "float_quotient_trunc a b = Inr t" ..
    from float_quotient_trunc_lower [OF assms t] t show ?thesis
      using assms by (simp add: int_truediv_def abs)
  qed
qed

lemma int_truediv_exact:
  assumes "0 < b" "b \<le> a" "bit_length (a div b) - 1 \<le> 52"
    and "b dvd a * 2 ^ (52 - (bit_length (a div b) - 1))"
  shows "int_truediv a b = Inr (a div b)"
proof -
  have abs: "\<bar>a\<bar> = a" "\<bar>b\<bar> = b" "sgn a = 1" "sgn b = 1" using assms by simp_all
  show ?thesis
    using assms(1) float_quotient_trunc_exact [OF assms] by (simp add: int_truediv_def abs)
qed

lemma int_truediv_half_exact:
  assumes "n mod 2 = 0" "6 \<le> n" "n < 2 ^ 54"
  shows "int_truediv n 2 = Inr (n div 2)"
proof (rule int_truediv_exact)
  have "n div 2 < 2 ^ 53" using assms(3) by simp
  from bit_length_less [OF this] show "bit_length (n div 2) - 1 \<le> 52" by simp
  have "2 dvd n" using assms(1) by presburger
  then show "2 dvd n * 2 ^ (52 - (bit_length (n div 2) - 1))" by simp
qed (use assms in simp_all)

lemma int_truediv_quarter_exact:
  assumes "n mod 2 = 0" "8 \<le> n" "n < 2 ^ 54"
  shows "int_truediv n 4 = Inr (n div 4)"
proof (rule int_truediv_exact)
  have "n div 4 < 2 ^ 52" using assms(3) by simp
  from bit_length_less [OF this] have e: "bit_length (n div 4) - 1 \<le> 51" by simp
  then show "bit_length (n div 4) - 1 \<le> 52" by simp
  define k where "k = 51 - (bit_length (n div 4) - 1)"
  have k: "52 - (bit_length (n div 4) - 1) = Suc k" using e by (simp add: k_def)
  have "2 dvd n" using assms(1) by presburger
  then obtain m where "n = 2 * m" ..
  then have "n * 2 ^ Suc k = 4 * (m * 2 ^ k)" by simp
  then show "4 dvd n * 2 ^ (52 - (bit_length (n div 4) - 1))" unfolding k by simp
qed (use assms in simp_all)

lemma int_truediv_half_cases:
  assumes "6 \<le> n"
  shows "int_truediv n 2 = Inl OverflowError \<or> (\<exists>hf. int_truediv n 2 = Inr hf \<and> 3 \<le> hf)"
proof -
  have "3 \<le> n div 2" using assms by simp
  with int_truediv_cases [of 2 n] assms show ?thesis by force
qed

lemma int_truediv_quarter_cases:
  assumes "8 \<le> n"
  shows "int_truediv n 4 = Inl OverflowError \<or> (\<exists>hf. int_truediv n 4 = Inr hf \<and> 2 \<le> hf)"
proof -
  have "2 \<le> n div 4" using assms by simp
  with int_truediv_cases [of 4 n] assms show ?thesis by force
qed

lemma int_truediv_half_rounds: "int_truediv (2 ^ 54 + 2) 2 = Inr (2 ^ 53)"
proof -
  have "bit_length (2 ^ 53 + 1) = Suc 53" by (rule bit_length_eqI) simp_all
  then show ?thesis
    by (simp add: int_truediv_def float_quotient_trunc_def round_half_even_def Let_def)
qed


lemma int_truediv_overflows:
  "int_truediv (4 * 10 ^ 308) 2 = Inl OverflowError"
  "int_truediv (8 * 10 ^ 308) 4 = Inl OverflowError"
proof -
  have "(2::int) ^ 1024 \<le> 2 * 10 ^ 308" by simp
  from bit_length_ge [OF this] have "1024 \<le> bit_length (2 * 10 ^ 308) - 1" by simp
  moreover have "(4 * 10 ^ 308) div 2 = (2 * 10 ^ 308 :: int)" "(8 * 10 ^ 308) div 4 = (2 * 10 ^ 308 :: int)"
    by simp_all
  ultimately show "int_truediv (4 * 10 ^ 308) 2 = Inl OverflowError"
    "int_truediv (8 * 10 ^ 308) 4 = Inl OverflowError"
    by (simp_all add: int_truediv_def float_quotient_trunc_def Let_def)
qed

section \<open>Evaluating the operations on explicit models\<close>

lemma set_linear_eval:
  "set_linear \<lparr>vartype = t, linear = l, quadratic = q\<rparr> v b =
     \<lparr>vartype = t, linear = AList.update v b l, quadratic = q\<rparr>"
  by (simp add: set_linear_def)

lemma add_linear_eval:
  "add_linear \<lparr>vartype = t, linear = l, quadratic = q\<rparr> v b =
     \<lparr>vartype = t,
      linear = AList.update v ((case map_of l v of None \<Rightarrow> 0 | Some x \<Rightarrow> x) + b) l,
      quadratic = q\<rparr>"
  by (simp add: add_linear_def get_linear_def)

lemma add_variable_eval:
  "add_variable \<lparr>vartype = t, linear = l, quadratic = q\<rparr> v =
     \<lparr>vartype = t,
      linear = AList.update v (case map_of l v of None \<Rightarrow> 0 | Some x \<Rightarrow> x) l,
      quadratic = q\<rparr>"
  by (simp add: add_variable_def get_linear_def)

lemma set_quadratic_eval:
  "set_quadratic \<lparr>vartype = t, linear = l, quadratic = q\<rparr> u v b =
     (if u = v then Inl (EdgeEndpointsEqual, Some \<lparr>vartype = t, linear = l, quadratic = q\<rparr>)
      else Inr ((add_variable (add_variable \<lparr>vartype = t, linear = l, quadratic = q\<rparr> u) v)
                  \<lparr>quadratic := AList.update (edge_key u v) b q\<rparr>))"
  by (simp add: set_quadratic_def)

lemma add_quadratic_eval:
  "add_quadratic \<lparr>vartype = t, linear = l, quadratic = q\<rparr> u v b =
     (if u = v then Inl (EdgeEndpointsEqual, Some \<lparr>vartype = t, linear = l, quadratic = q\<rparr>)
      else Inr ((add_variable (add_variable \<lparr>vartype = t, linear = l, quadratic = q\<rparr> u) v)
                  \<lparr>quadratic := AList.update (edge_key u v)
                      ((case map_of q (edge_key u v) of None \<Rightarrow> 0 | Some w \<Rightarrow> w) + b) q\<rparr>))"
  by (simp add: add_quadratic_def get_quadratic_def)

lemmas bqm_eval = set_linear_eval add_linear_eval add_variable_eval set_quadratic_eval
  add_quadratic_eval BinaryQuadraticModel_def edge_key_def clique_inner_def clique_body_def
  loops_body_def anti_crossing_clique_def anti_crossing_loops_def
  int_truediv_half_exact int_truediv_quarter_exact upt_rec [of 0] upt_rec [of "Suc _"] Let_def

section \<open>The operations on the abstract view\<close>

lemma models_empty: "models (BinaryQuadraticModel SPIN) {} (\<lambda>_. 0) {} (\<lambda>_. 0)"
  by (simp add: models_def BinaryQuadraticModel_def nodes_def edges_def get_linear_def
      edge_weight_def fun_eq_iff)

lemma models_add_variable:
  assumes "models m R W K E"
  shows "models (add_variable m v) (insert v R) W K E"
  using assms
  by (auto simp: models_def add_variable_def nodes_def edges_def get_linear_def
      edge_weight_def fun_eq_iff AList.distinct_update AList.dom_update AList.update_conv'
      split: option.splits)

lemma models_add_linear:
  assumes "models m R W K E"
  shows "models (add_linear m v b) (insert v R) (W(v := W v + b)) K E"
  using assms
  by (auto simp: models_def add_linear_def nodes_def edges_def get_linear_def
      edge_weight_def fun_eq_iff AList.distinct_update AList.dom_update AList.update_conv'
      split: option.splits)

lemma models_set_linear:
  assumes "models m R W K E"
  shows "models (set_linear m v b) (insert v R) (W(v := b)) K E"
  using assms
  by (auto simp: models_def set_linear_def nodes_def edges_def get_linear_def
      edge_weight_def fun_eq_iff AList.distinct_update AList.dom_update AList.update_conv'
      split: option.splits)

lemma models_quadratic_update:
  assumes "models m R W K E" and "distinct (map fst (quadratic m0))"
  shows "models (m\<lparr>quadratic := AList.update k w (quadratic m0)\<rparr>) R W
           (insert k (edges m0)) ((edge_weight m0)(k := w))"
  using assms
  by (auto simp: models_def nodes_def edges_def get_linear_def
      edge_weight_def fun_eq_iff AList.distinct_update AList.dom_update AList.update_conv'
      split: option.splits)

lemma models_set_quadratic:
  assumes "models m R W K E" and "u \<noteq> v"
  shows "\<exists>m'. set_quadratic m u v b = Inr m' \<and>
           models m' (insert v (insert u R)) W (insert (edge_key u v) K) (E(edge_key u v := b))"
proof -
  have 1: "models (add_variable (add_variable m u) v) (insert v (insert u R)) W K E"
    by (intro models_add_variable assms)
  have 2: "distinct (map fst (quadratic m))" "edges m = K" "edge_weight m = E"
    using assms(1) by (simp_all add: models_def)
  show ?thesis
    using assms(2) models_quadratic_update [OF 1 2(1), of "edge_key u v" b]
    by (simp add: set_quadratic_def 2)
qed

lemma models_add_quadratic:
  assumes "models m R W K E" and "u \<noteq> v"
  shows "\<exists>m'. add_quadratic m u v b = Inr m' \<and>
           models m' (insert v (insert u R)) W (insert (edge_key u v) K)
             (E(edge_key u v := E (edge_key u v) + b))"
proof -
  have 1: "models (add_variable (add_variable m u) v) (insert v (insert u R)) W K E"
    by (intro models_add_variable assms)
  have 2: "distinct (map fst (quadratic m))" "edges m = K" "edge_weight m = E"
    using assms(1) by (simp_all add: models_def)
  have 3: "(case get_quadratic m u v of None \<Rightarrow> 0 | Some w \<Rightarrow> w) = E (edge_key u v)"
    unfolding 2(3) [symmetric] by (simp add: get_quadratic_def edge_weight_def)
  show ?thesis
    using assms(2) models_quadratic_update [OF 1 2(1), of "edge_key u v" "E (edge_key u v) + b"]
    by (simp add: add_quadratic_def 2 3)
qed

lemma for_loop_invariant:
  assumes "I a s" and "a \<le> b"
    and step: "\<And>k s. a \<le> k \<Longrightarrow> k < b \<Longrightarrow> I k s \<Longrightarrow> \<exists>s'. body k s = Inr s' \<and> I (Suc k) s'"
  shows "\<exists>s'. for_loop body [a ..< b] s = Inr s' \<and> I b s'"
  using assms
proof (induction "b - a" arbitrary: a s)
  case 0
  then show ?case by simp
next
  case (Suc d)
  then have lt: "a < b" by simp
  from Suc.prems(3) [of a s] Suc.prems(1) lt obtain s1
    where s1: "body a s = Inr s1" "I (Suc a) s1" by auto
  have "\<exists>s'. for_loop body [Suc a ..< b] s1 = Inr s' \<and> I b s'"
  proof (rule Suc.hyps(1))
    show "d = b - Suc a" using Suc.hyps(2) by simp
    show "I (Suc a) s1" by (rule s1)
    show "Suc a \<le> b" using lt by simp
    show "\<exists>s'. body k s = Inr s' \<and> I (Suc k) s'" if "Suc a \<le> k" "k < b" "I k s" for k s
      using that Suc.prems(3) [of k s] by simp
  qed
  then show ?case using lt s1 by (simp add: upt_conv_Cons)
qed

section \<open>The loop of \<^verbatim>\<open>anti_crossing_clique\<close>\<close>

lemma clique_inner_step:
  assumes "n < j" "j < h" "clique_inner_state h n j m"
  shows "\<exists>m'. add_quadratic m n j (- 1) = Inr m' \<and> clique_inner_state h n (Suc j) m'"
proof -
  let ?R = "clique_nodes h n \<union> (if n + 1 < j then {n ..< j} else {})"
  let ?K = "clique_edges h n \<union> Pair n ` {n + 1 ..< j}"
  from assms(3) have "models m ?R (clique_weights h n) ?K (ind ?K)"
    by (simp add: clique_inner_state_def)
  from models_add_quadratic [OF this, of n j "- 1"] assms(1) obtain m'
    where m': "add_quadratic m n j (- 1) = Inr m'"
      "models m' (insert j (insert n ?R)) (clique_weights h n) (insert (edge_key n j) ?K)
         ((ind ?K)(edge_key n j := ind ?K (edge_key n j) + - 1))"
    by auto
  have key: "edge_key n j = (n, j)"
    using assms(1) by (simp add: edge_key_def)
  have R: "insert j (insert n ?R) = clique_nodes h n \<union> (if n + 1 < Suc j then {n ..< Suc j} else {})"
    using assms(1) by auto
  have K: "insert (edge_key n j) ?K = clique_edges h n \<union> Pair n ` {n + 1 ..< Suc j}"
    using assms(1) unfolding key by auto
  have fresh: "(n, j) \<notin> ?K"
    by (auto simp: clique_edges_def)
  have E: "(ind ?K)(edge_key n j := ind ?K (edge_key n j) + - 1)
             = ind (clique_edges h n \<union> Pair n ` {n + 1 ..< Suc j})"
    unfolding K [symmetric] key using fresh by (auto simp: ind_def fun_eq_iff)
  have "clique_inner_state h n (Suc j) m'"
    unfolding clique_inner_state_def using m'(2) by (simp only: R K E)
  with m'(1) show ?thesis by blast
qed

lemma clique_inner_models:
  assumes "n < h" "clique_state h n m"
  shows "\<exists>m'. clique_inner h n m = Inr m' \<and> clique_inner_state h n h m'"
  unfolding clique_inner_def
proof (rule for_loop_invariant [where I = "clique_inner_state h n"])
  show "clique_inner_state h n (n + 1) m"
    using assms(2) by (simp add: clique_inner_state_def clique_state_def)
  show "n + 1 \<le> h" using assms(1) by simp
  show "\<exists>s'. add_quadratic s n k (- 1) = Inr s' \<and> clique_inner_state h n (Suc k) s'"
    if "n + 1 \<le> k" "k < h" "clique_inner_state h n k s" for k s
    using that by (intro clique_inner_step) simp_all
qed

lemma clique_body_models:
  assumes "n < h" "clique_state h n m"
  shows "\<exists>m'. clique_body h n m = Inr m' \<and> clique_state h (Suc n) m'"
proof -
  let ?R = "clique_nodes h n \<union> (if n + 1 < h then {n ..< h} else {})"
  let ?K = "clique_edges h n \<union> Pair n ` {n + 1 ..< h}"
  let ?W = "clique_weights h n"
  from clique_inner_models [OF assms] obtain m1
    where m1: "clique_inner h n m = Inr m1" "models m1 ?R ?W ?K (ind ?K)"
    by (auto simp: clique_inner_state_def)
  have key: "edge_key n (n + h) = (n, n + h)"
    by (simp add: edge_key_def)
  have ne: "n \<noteq> n + h" using assms(1) by simp
  from models_add_quadratic [OF m1(2) ne, of "- 1"] obtain m2
    where m2: "add_quadratic m1 n (n + h) (- 1) = Inr m2"
      "models m2 (insert (n + h) (insert n ?R)) ?W (insert (edge_key n (n + h)) ?K)
         ((ind ?K)(edge_key n (n + h) := ind ?K (edge_key n (n + h)) + - 1))"
    by auto
  let ?m3 = "add_linear (add_linear m2 n 1) (n + h) (- 1)"
  have m3: "models ?m3 (insert (n + h) (insert n (insert (n + h) (insert n ?R))))
      (?W(n := ?W n + 1, n + h := (?W(n := ?W n + 1)) (n + h) + - 1))
      (insert (edge_key n (n + h)) ?K)
      ((ind ?K)(edge_key n (n + h) := ind ?K (edge_key n (n + h)) + - 1))"
    by (intro models_add_linear m2(2))
  have R: "insert (n + h) (insert n (insert (n + h) (insert n ?R))) = clique_nodes h (Suc n)"
    using assms(1) by (auto simp: clique_nodes_def)
  have W: "?W(n := ?W n + 1, n + h := (?W(n := ?W n + 1)) (n + h) + - 1) = clique_weights h (Suc n)"
    using assms(1) by (auto simp: clique_weights_def fun_eq_iff)
  have K: "insert (edge_key n (n + h)) ?K = clique_edges h (Suc n)"
    unfolding key using assms(1) by (auto simp: clique_edges_def less_Suc_eq)
  have fresh: "(n, n + h) \<notin> ?K"
    using assms(1) by (auto simp: clique_edges_def)
  have E: "(ind ?K)(edge_key n (n + h) := ind ?K (edge_key n (n + h)) + - 1)
             = ind (clique_edges h (Suc n))"
    unfolding K [symmetric] key using fresh by (auto simp: ind_def fun_eq_iff)
  have "clique_state h (Suc n) ?m3"
    unfolding clique_state_def using m3 by (simp only: R W K E)
  then show ?thesis
    by (simp add: clique_body_def m1(1) m2(1))
qed

lemma clique_loop_models:
  "\<exists>m. for_loop (clique_body h) [0 ..< h] (BinaryQuadraticModel SPIN) = Inr m \<and> clique_state h h m"
proof (rule for_loop_invariant [where I = "clique_state h"])
  have "clique_nodes h 0 = {}" "clique_weights h 0 = (\<lambda>_. 0)" "clique_edges h 0 = {}"
    "ind {} = (\<lambda>_. 0)"
    by (auto simp: clique_nodes_def clique_weights_def clique_edges_def ind_def fun_eq_iff)
  then show "clique_state h 0 (BinaryQuadraticModel SPIN)"
    using models_empty by (simp add: clique_state_def)
  show "\<exists>s'. clique_body h k s = Inr s' \<and> clique_state h (Suc k) s'"
    if "k < h" "clique_state h k s" for k s
    using that by (rule clique_body_models)
qed simp

lemma anti_crossing_clique_models:
  assumes "num_variables mod 2 = 0" "6 \<le> num_variables"
    and "int_truediv num_variables 2 = Inr hf" "h = nat hf"
  shows "3 \<le> h \<and> (\<exists>m. anti_crossing_clique num_variables = Inr m \<and>
           models m {0 ..< 2 * h} ((clique_weights h h)(1 := 0)) (clique_edges h h)
             (ind (clique_edges h h)))"
proof -
  from clique_loop_models [of h] obtain m
    where m: "for_loop (clique_body h) [0 ..< h] (BinaryQuadraticModel SPIN) = Inr m"
      "models m (clique_nodes h h) (clique_weights h h) (clique_edges h h) (ind (clique_edges h h))"
    by (auto simp: clique_state_def)
  have "3 \<le> hf" using int_truediv_half_cases [OF assms(2)] assms(3) by auto
  then have h: "3 \<le> h" using assms(4) by simp
  then have R: "insert 1 (clique_nodes h h) = {0 ..< 2 * h}"
    by (auto simp: clique_nodes_def)
  have "models (set_linear m 1 0) {0 ..< 2 * h} ((clique_weights h h)(1 := 0)) (clique_edges h h)
             (ind (clique_edges h h))"
    using models_set_linear [OF m(2), of 1 0] by (simp only: R)
  then show ?thesis
    using assms h m(1) by (simp add: anti_crossing_clique_def)
qed

lemma anti_crossing_clique_overflow:
  assumes "num_variables mod 2 = 0" "6 \<le> num_variables"
    and "int_truediv num_variables 2 = Inl OverflowError"
  shows "anti_crossing_clique num_variables = Inl (OverflowError, Some (BinaryQuadraticModel SPIN))"
  using assms by (simp add: anti_crossing_clique_def)

lemma anti_crossing_clique_exact:
  assumes "num_variables mod 2 = 0" "6 \<le> num_variables" "num_variables < 2 ^ 54"
    and "h = nat (num_variables div 2)"
  shows "\<exists>m. anti_crossing_clique num_variables = Inr m \<and>
           models m {0 ..< 2 * h} ((clique_weights h h)(1 := 0)) (clique_edges h h)
             (ind (clique_edges h h))"
  using anti_crossing_clique_models [OF assms(1,2) int_truediv_half_exact [OF assms(1,2,3)] assms(4)]
  by simp

section \<open>The loop of \<^verbatim>\<open>anti_crossing_loops\<close>\<close>

lemma ind_insert: "(ind K)(e := - 1) = ind (insert e K)"
  by (auto simp: ind_def fun_eq_iff)

lemma models_set_quadratic_ind:
  assumes "models m R W K (ind K)" and "u \<noteq> v"
  shows "\<exists>m'. set_quadratic m u v (- 1) = Inr m' \<and>
           models m' (insert v (insert u R)) W (insert (edge_key u v) K)
             (ind (insert (edge_key u v) K))"
  using models_set_quadratic [OF assms, of "- 1"] by (simp only: ind_insert)

lemma succ_mod_neq:
  fixes n q :: nat
  assumes "n < q" "2 \<le> q"
  shows "(n + 1) mod q \<noteq> n"
proof (cases "n + 1 < q")
  case True
  then have "(n + 1) mod q = n + 1" by (rule mod_less)
  then show ?thesis by linarith
next
  case False
  with assms have eq: "n + 1 = q" by linarith
  have "q mod q = 0" by (rule mod_self)
  then have "(n + 1) mod q = 0" unfolding eq .
  with assms eq show ?thesis by linarith
qed

lemma loops_body_models:
  assumes "n < q" "2 \<le> q" "loops_state q n m"
  shows "\<exists>m'. loops_body q n m = Inr m' \<and> loops_state q (Suc n) m'"
proof -
  let ?R = "loops_nodes q n" and ?W = "loops_weights q n" and ?K = "loops_edges q n"
  let ?s = "(n + 1) mod q"
  define R0 where "R0 = (if n mod 2 = 1 then insert (n + q) (insert n ?R) else ?R)"
  define K0 where "K0 = (if n mod 2 = 1 then insert (edge_key n (n + q)) ?K else ?K)"
  have m: "models m ?R ?W ?K (ind ?K)"
    using assms(3) by (simp add: loops_state_def)
  have ne: "n \<noteq> n + q" "n \<noteq> ?s" "n + q \<noteq> ?s + q" "n \<noteq> n + 2 * q" "n + q \<noteq> n + 3 * q"
    using assms(1,2) succ_mod_neq [OF assms(1,2)] by auto
  have "\<exists>m0. (if n mod 2 = 1 then set_quadratic m n (n + q) (- 1) else Inr m) = Inr m0 \<and>
          models m0 R0 ?W K0 (ind K0)"
    using m models_set_quadratic_ind [OF m ne(1)] by (simp add: R0_def K0_def)
  then obtain m0
    where m0: "(if n mod 2 = 1 then set_quadratic m n (n + q) (- 1) else Inr m) = Inr m0"
      "models m0 R0 ?W K0 (ind K0)"
    by blast
  from models_set_quadratic_ind [OF m0(2) ne(2)] obtain m1
    where m1: "set_quadratic m0 n ?s (- 1) = Inr m1"
      "models m1 (insert ?s (insert n R0)) ?W (insert (edge_key n ?s) K0)
         (ind (insert (edge_key n ?s) K0))"
    by blast
  from models_set_quadratic_ind [OF m1(2) ne(3)] obtain m2
    where m2: "set_quadratic m1 (n + q) (?s + q) (- 1) = Inr m2"
      "models m2 (insert (?s + q) (insert (n + q) (insert ?s (insert n R0)))) ?W
         (insert (edge_key (n + q) (?s + q)) (insert (edge_key n ?s) K0))
         (ind (insert (edge_key (n + q) (?s + q)) (insert (edge_key n ?s) K0)))"
    by blast
  from models_set_quadratic_ind [OF m2(2) ne(4)] obtain m3
    where m3: "set_quadratic m2 n (n + 2 * q) (- 1) = Inr m3"
      "models m3 (insert (n + 2 * q) (insert n
           (insert (?s + q) (insert (n + q) (insert ?s (insert n R0)))))) ?W
         (insert (edge_key n (n + 2 * q))
           (insert (edge_key (n + q) (?s + q)) (insert (edge_key n ?s) K0)))
         (ind (insert (edge_key n (n + 2 * q))
           (insert (edge_key (n + q) (?s + q)) (insert (edge_key n ?s) K0))))"
    by blast
  define R4 where "R4 = insert (n + 3 * q) (insert (n + q) (insert (n + 2 * q) (insert n
           (insert (?s + q) (insert (n + q) (insert ?s (insert n R0)))))))"
  define K4 where "K4 = insert (edge_key (n + q) (n + 3 * q)) (insert (edge_key n (n + 2 * q))
           (insert (edge_key (n + q) (?s + q)) (insert (edge_key n ?s) K0)))"
  from models_set_quadratic_ind [OF m3(2) ne(5)] obtain m4
    where m4: "set_quadratic m3 (n + q) (n + 3 * q) (- 1) = Inr m4"
      "models m4 R4 ?W K4 (ind K4)"
    unfolding R4_def K4_def by blast
  define W1 where "W1 = ?W(n := ?W n + 1)"
  define W2 where "W2 = W1(n + q := W1 (n + q) + 1)"
  define W3 where "W3 = W2(n + 2 * q := W2 (n + 2 * q) + - 1)"
  define W4 where "W4 = W3(n + 3 * q := W3 (n + 3 * q) + - 1)"
  let ?m8 = "add_linear (add_linear (add_linear (add_linear m4 n 1) (n + q) 1)
               (n + 2 * q) (- 1)) (n + 3 * q) (- 1)"
  have m8: "models ?m8
      (insert (n + 3 * q) (insert (n + 2 * q) (insert (n + q) (insert n R4)))) W4 K4 (ind K4)"
    unfolding W4_def W3_def W2_def W1_def by (intro models_add_linear m4(2))
  have R: "insert (n + 3 * q) (insert (n + 2 * q) (insert (n + q) (insert n R4)))
             = loops_nodes q (Suc n)"
    by (auto simp: R4_def R0_def loops_nodes_def loops_touch_def lessThan_Suc)
  have K: "K4 = loops_edges q (Suc n)"
    by (auto simp: K4_def K0_def loops_edges_def loops_step_edges_def lessThan_Suc)
  have W: "W4 = loops_weights q (Suc n)"
    using assms(1) by (auto simp: W4_def W3_def W2_def W1_def loops_weights_def fun_eq_iff)
  have "loops_state q (Suc n) ?m8"
    unfolding loops_state_def using m8 by (simp only: R K W)
  then show ?thesis
    unfolding loops_body_def m0(1) m1(1) m2(1) m3(1) m4(1) then_do.simps Let_def by blast
qed

lemma loops_loop_models:
  assumes "2 \<le> q"
  shows "\<exists>m. for_loop (loops_body q) [0 ..< q] (BinaryQuadraticModel SPIN) = Inr m \<and> loops_state q q m"
proof (rule for_loop_invariant [where I = "loops_state q"])
  have "loops_nodes q 0 = {}" "loops_weights q 0 = (\<lambda>_. 0)" "loops_edges q 0 = {}"
    "ind {} = (\<lambda>_. 0)"
    by (auto simp: loops_nodes_def loops_weights_def loops_edges_def ind_def fun_eq_iff)
  then show "loops_state q 0 (BinaryQuadraticModel SPIN)"
    using models_empty by (simp add: loops_state_def)
  show "\<exists>s'. loops_body q k s = Inr s' \<and> loops_state q (Suc k) s'"
    if "k < q" "loops_state q k s" for k s
    using that(1) assms that(2) by (rule loops_body_models)
qed simp

lemma loops_nodes_full:
  assumes "0 < q"
  shows "loops_nodes q q = {0 ..< 4 * q}"
proof (rule set_eqI)
  fix v
  show "v \<in> loops_nodes q q \<longleftrightarrow> v \<in> {0 ..< 4 * q}"
  proof
    assume "v \<in> loops_nodes q q"
    then obtain n where n: "n < q" "v \<in> loops_touch q n"
      by (auto simp: loops_nodes_def)
    have "(n + 1) mod q < q" using assms by (rule mod_less_divisor)
    then have "Suc n mod q < 4 * q" "Suc n mod q < 3 * q" by simp_all
    with n show "v \<in> {0 ..< 4 * q}"
      unfolding loops_touch_def by auto
  next
    assume v: "v \<in> {0 ..< 4 * q}"
    define n where "n = v mod q"
    have n: "n < q" using assms by (simp add: n_def)
    have "v = n \<or> v = n + q \<or> v = n + 2 * q \<or> v = n + 3 * q"
    proof -
      have "v div q < 4" using v assms by (simp add: less_mult_imp_div_less mult.commute)
      moreover have "v = n + (v div q) * q" by (simp add: n_def)
      ultimately show ?thesis
        by (cases "v div q = 0"; cases "v div q = 1"; cases "v div q = 2"; cases "v div q = 3")
          (auto, presburger?)
    qed
    then have "v \<in> loops_touch q n" by (auto simp: loops_touch_def)
    with n show "v \<in> loops_nodes q q" by (auto simp: loops_nodes_def)
  qed
qed

lemma anti_crossing_loops_models:
  assumes "num_variables mod 2 = 0" "8 \<le> num_variables"
    and "int_truediv num_variables 4 = Inr hf" "q = nat hf"
  shows "2 \<le> q \<and> (\<exists>m. anti_crossing_loops num_variables = Inr m \<and>
           models m {0 ..< 4 * q} ((loops_weights q q)(0 := 0, q := 0)) (loops_edges q q)
             (ind (loops_edges q q)))"
proof -
  have "2 \<le> hf" using int_truediv_quarter_cases [OF assms(2)] assms(3) by auto
  then have q: "2 \<le> q" using assms(4) by simp
  from loops_loop_models [OF q] obtain m
    where m: "for_loop (loops_body q) [0 ..< q] (BinaryQuadraticModel SPIN) = Inr m"
      "models m (loops_nodes q q) (loops_weights q q) (loops_edges q q) (ind (loops_edges q q))"
    by (auto simp: loops_state_def)
  have full: "loops_nodes q q = {0 ..< 4 * q}"
    using q by (intro loops_nodes_full) simp
  have R: "insert q (insert 0 (loops_nodes q q)) = {0 ..< 4 * q}"
    unfolding full using q by auto
  have "models (set_linear (set_linear m 0 0) q 0) {0 ..< 4 * q}
          ((loops_weights q q)(0 := 0, q := 0)) (loops_edges q q) (ind (loops_edges q q))"
    using models_set_linear [OF models_set_linear [OF m(2), of 0 0], of q 0] by (simp only: R)
  then show ?thesis
    using assms q m(1) by (simp add: anti_crossing_loops_def Let_def)
qed

lemma anti_crossing_loops_overflow:
  assumes "num_variables mod 2 = 0" "8 \<le> num_variables"
    and "int_truediv num_variables 4 = Inl OverflowError"
  shows "anti_crossing_loops num_variables = Inl (OverflowError, Some (BinaryQuadraticModel SPIN))"
  using assms by (simp add: anti_crossing_loops_def)

lemma anti_crossing_loops_exact:
  assumes "num_variables mod 2 = 0" "8 \<le> num_variables" "num_variables < 2 ^ 54"
    and "q = nat (num_variables div 4)"
  shows "\<exists>m. anti_crossing_loops num_variables = Inr m \<and>
           models m {0 ..< 4 * q} ((loops_weights q q)(0 := 0, q := 0)) (loops_edges q q)
             (ind (loops_edges q q))"
  using anti_crossing_loops_models [OF assms(1,2) int_truediv_quarter_exact [OF assms(1,2,3)] assms(4)]
  by simp

section \<open>Reading a model through the abstract view\<close>

lemma models_quadratic_entry:
  assumes "models m R W K (ind K)" and "(k, w) \<in> set (quadratic m)"
  shows "k \<in> K \<and> w = - 1"
proof -
  have d: "distinct (map fst (quadratic m))" and K: "edges m = K"
    and E: "edge_weight m = ind K"
    using assms(1) by (simp_all add: models_def)
  have "map_of (quadratic m) k = Some w"
    using d assms(2) by (rule map_of_is_SomeI)
  then have w: "edge_weight m k = w" by (simp add: edge_weight_def)
  have k: "k \<in> K" using assms(2) K by (force simp: edges_def)
  with w E show ?thesis by (simp add: ind_def)
qed

lemma models_get_quadratic:
  assumes "models m R W K (ind K)" and "edge_key u v \<in> K"
  shows "get_quadratic m u v = Some (- 1)"
proof -
  have d: "distinct (map fst (quadratic m))" and K: "edges m = K"
    using assms(1) by (simp_all add: models_def)
  from assms(2) K obtain w where w: "(edge_key u v, w) \<in> set (quadratic m)"
    by (force simp: edges_def)
  have "map_of (quadratic m) (edge_key u v) = Some w"
    using d w by (rule map_of_is_SomeI)
  with models_quadratic_entry [OF assms(1) w] show ?thesis
    by (simp add: get_quadratic_def)
qed

lemma models_linear:
  assumes "models m R W K E"
  shows "map_of (linear m) v = (if v \<in> R then Some (W v) else None)"
proof -
  have R: "nodes m = R" and W: "get_linear m = W" and d: "distinct (map fst (linear m))"
    using assms by (simp_all add: models_def)
  show ?thesis
  proof (cases "v \<in> R")
    case True
    with R have "v \<in> fst ` set (linear m)" by (simp add: nodes_def)
    then obtain b where "(v, b) \<in> set (linear m)" by force
    with d have b: "map_of (linear m) v = Some b" by (rule map_of_is_SomeI)
    then have "get_linear m v = b" by (simp add: get_linear_def)
    with b W True show ?thesis by simp
  next
    case False
    with R have "v \<notin> fst ` set (linear m)" by (simp add: nodes_def)
    with False show ?thesis by (simp add: map_of_eq_None_iff)
  qed
qed

lemma models_variables:
  assumes "models m R W K E"
  shows "set (variables m) = R" and "distinct (variables m)"
  using assms by (simp_all add: models_def variables_def nodes_def)

section \<open>The edge operations never fail in the loops\<close>

lemma for_loop_total:
  assumes "\<And>x s. x \<in> set xs \<Longrightarrow> \<exists>s'. body x s = Inr s'"
  shows "\<exists>s'. for_loop body xs s = Inr s'"
  using assms
proof (induction xs arbitrary: s)
  case Nil
  then show ?case by simp
next
  case (Cons x xs)
  from Cons.prems [of x s] obtain s1 where s1: "body x s = Inr s1" by auto
  have "\<exists>s'. for_loop body xs s1 = Inr s'"
    by (rule Cons.IH) (simp add: Cons.prems)
  with s1 show ?case by simp
qed

lemma add_quadratic_total: "u \<noteq> v \<Longrightarrow> \<exists>m'. add_quadratic m u v b = Inr m'"
  by (simp add: add_quadratic_def)

lemma set_quadratic_total: "u \<noteq> v \<Longrightarrow> \<exists>m'. set_quadratic m u v b = Inr m'"
  by (simp add: set_quadratic_def)

lemma clique_body_total:
  assumes "0 < hf"
  shows "\<exists>b'. clique_body hf k b = Inr b'"
proof -
  have "\<exists>b1. clique_inner hf k b = Inr b1"
    unfolding clique_inner_def by (rule for_loop_total) (simp add: add_quadratic_total)
  then obtain b1 where b1: "clique_inner hf k b = Inr b1" ..
  from assms have "k \<noteq> k + hf" by simp
  from add_quadratic_total [OF this] obtain b2
    where b2: "add_quadratic b1 k (k + hf) (- 1) = Inr b2" by blast
  show ?thesis by (simp add: clique_body_def b1 b2)
qed

lemma loops_body_total:
  assumes "k < hf" "2 \<le> hf"
  shows "\<exists>b'. loops_body hf k b = Inr b'"
proof -
  let ?s = "(k + 1) mod hf"
  have ne: "k \<noteq> k + hf" "k \<noteq> ?s" "k + hf \<noteq> ?s + hf" "k \<noteq> k + 2 * hf" "k + hf \<noteq> k + 3 * hf"
    using assms succ_mod_neq [OF assms] by auto
  have "\<exists>b0. (if k mod 2 = 1 then set_quadratic b k (k + hf) (- 1) else Inr b) = Inr b0"
    using set_quadratic_total [OF ne(1)] by simp
  then obtain b0
    where b0: "(if k mod 2 = 1 then set_quadratic b k (k + hf) (- 1) else Inr b) = Inr b0" ..
  from set_quadratic_total [OF ne(2)] obtain b1
    where b1: "set_quadratic b0 k ?s (- 1) = Inr b1" by blast
  from set_quadratic_total [OF ne(3)] obtain b2
    where b2: "set_quadratic b1 (k + hf) (?s + hf) (- 1) = Inr b2" by blast
  from set_quadratic_total [OF ne(4)] obtain b3
    where b3: "set_quadratic b2 k (k + 2 * hf) (- 1) = Inr b3" by blast
  from set_quadratic_total [OF ne(5)] obtain b4
    where b4: "set_quadratic b3 (k + hf) (k + 3 * hf) (- 1) = Inr b4" by blast
  show ?thesis
    unfolding loops_body_def b0 b1 b2 b3 b4 then_do.simps Let_def by blast
qed

section \<open>The claims\<close>

subsection \<open>What a returned model looks like\<close>

lemma anti_crossing_clique_returned:
  assumes "n mod 2 = 0" "6 \<le> n" and "anti_crossing_clique n = Inr m"
  shows "\<exists>hf. int_truediv n 2 = Inr hf \<and> 3 \<le> nat hf \<and>
           models m {0 ..< 2 * nat hf} ((clique_weights (nat hf) (nat hf))(1 := 0))
             (clique_edges (nat hf) (nat hf)) (ind (clique_edges (nat hf) (nat hf)))"
proof -
  from int_truediv_half_cases [OF assms(2)] show ?thesis
  proof
    assume "int_truediv n 2 = Inl OverflowError"
    from anti_crossing_clique_overflow [OF assms(1,2) this] assms(3) show ?thesis by simp
  next
    assume "\<exists>hf. int_truediv n 2 = Inr hf \<and> 3 \<le> hf"
    then obtain hf where hf: "int_truediv n 2 = Inr hf" by blast
    from anti_crossing_clique_models [OF assms(1,2) hf refl] assms(3) hf show ?thesis by auto
  qed
qed

lemma anti_crossing_loops_returned:
  assumes "n mod 2 = 0" "8 \<le> n" and "anti_crossing_loops n = Inr m"
  shows "\<exists>hf. int_truediv n 4 = Inr hf \<and> 2 \<le> nat hf \<and>
           models m {0 ..< 4 * nat hf} ((loops_weights (nat hf) (nat hf))(0 := 0, nat hf := 0))
             (loops_edges (nat hf) (nat hf)) (ind (loops_edges (nat hf) (nat hf)))"
proof -
  from int_truediv_quarter_cases [OF assms(2)] show ?thesis
  proof
    assume "int_truediv n 4 = Inl OverflowError"
    from anti_crossing_loops_overflow [OF assms(1,2) this] assms(3) show ?thesis by simp
  next
    assume "\<exists>hf. int_truediv n 4 = Inr hf \<and> 2 \<le> hf"
    then obtain hf where hf: "int_truediv n 4 = Inr hf" by blast
    from anti_crossing_loops_models [OF assms(1,2) hf refl] assms(3) hf show ?thesis by auto
  qed
qed

lemma anti_crossing_clique_returns:
  assumes "n mod 2 = 0" "6 \<le> n" "n < 2 ^ 54"
  shows "\<exists>m. anti_crossing_clique n = Inr m"
  using anti_crossing_clique_exact [OF assms refl] by blast

lemma anti_crossing_loops_returns:
  assumes "n mod 2 = 0" "8 \<le> n" "n < 2 ^ 54"
  shows "\<exists>m. anti_crossing_loops n = Inr m"
  using anti_crossing_loops_exact [OF assms refl] by blast

lemma anti_crossing_clique_failures:
  assumes "anti_crossing_clique n = Inl (e, x)"
  shows "(e = ValueError ''num_variables must be an even number >= 6'' \<and> x = None \<and>
            (n mod 2 \<noteq> 0 \<or> n < 6)) \<or>
         (e = OverflowError \<and> x = Some (BinaryQuadraticModel SPIN) \<and> n mod 2 = 0 \<and> 6 \<le> n)"
proof (cases "n mod 2 \<noteq> 0 \<or> n < 6")
  case True
  with assms show ?thesis by (simp add: anti_crossing_clique_def)
next
  case False
  then have v: "n mod 2 = 0" "6 \<le> n" by simp_all
  from int_truediv_half_cases [OF v(2)] show ?thesis
  proof
    assume "int_truediv n 2 = Inl OverflowError"
    from anti_crossing_clique_overflow [OF v this] assms v show ?thesis by simp
  next
    assume "\<exists>hf. int_truediv n 2 = Inr hf \<and> 3 \<le> hf"
    then obtain hf where hf: "int_truediv n 2 = Inr hf" by blast
    from anti_crossing_clique_models [OF v hf refl] assms show ?thesis by auto
  qed
qed

lemma anti_crossing_loops_failures:
  assumes "anti_crossing_loops n = Inl (e, x)"
  shows "(e = ValueError ''num_variables must be an even number >= 8'' \<and> x = None \<and>
            (n mod 2 \<noteq> 0 \<or> n < 8)) \<or>
         (e = OverflowError \<and> x = Some (BinaryQuadraticModel SPIN) \<and> n mod 2 = 0 \<and> 8 \<le> n)"
proof (cases "n mod 2 \<noteq> 0 \<or> n < 8")
  case True
  with assms show ?thesis by (simp add: anti_crossing_loops_def)
next
  case False
  then have v: "n mod 2 = 0" "8 \<le> n" by simp_all
  from int_truediv_quarter_cases [OF v(2)] show ?thesis
  proof
    assume "int_truediv n 4 = Inl OverflowError"
    from anti_crossing_loops_overflow [OF v this] assms v show ?thesis by simp
  next
    assume "\<exists>hf. int_truediv n 4 = Inr hf \<and> 2 \<le> hf"
    then obtain hf where hf: "int_truediv n 4 = Inr hf" by blast
    from anti_crossing_loops_models [OF v hf refl] assms show ?thesis by auto
  qed
qed

subsection \<open>The size checks\<close>

text \<open>
  Claim C4. For every integer \<open>num_variables\<close>, \<^verbatim>\<open>anti_crossing_clique\<close> raises the
  ValueError of its size check exactly when \<open>num_variables\<close> is odd or below 6, and
  \<^verbatim>\<open>anti_crossing_loops\<close> exactly when it is odd or below 8. That failure carries
  \<open>None\<close>: the exception is raised before the model is constructed, so no partial model
  exists. A size that passes the check never yields a ValueError, and below \<open>2^54\<close> it
  yields a model.
\<close>

theorem invalid_argument_exactly:
  "(n mod 2 \<noteq> 0 \<or> n < 6 \<longrightarrow>
      anti_crossing_clique n = Inl (ValueError ''num_variables must be an even number >= 6'', None)) \<and>
   (\<not> (n mod 2 \<noteq> 0 \<or> n < 6) \<longrightarrow>
      (\<forall>s x. anti_crossing_clique n \<noteq> Inl (ValueError s, x)) \<and>
      (n < 2 ^ 54 \<longrightarrow> (\<exists>m. anti_crossing_clique n = Inr m))) \<and>
   (n mod 2 \<noteq> 0 \<or> n < 8 \<longrightarrow>
      anti_crossing_loops n = Inl (ValueError ''num_variables must be an even number >= 8'', None)) \<and>
   (\<not> (n mod 2 \<noteq> 0 \<or> n < 8) \<longrightarrow>
      (\<forall>s x. anti_crossing_loops n \<noteq> Inl (ValueError s, x)) \<and>
      (n < 2 ^ 54 \<longrightarrow> (\<exists>m. anti_crossing_loops n = Inr m)))"
proof (intro conjI impI allI)
  assume "n mod 2 \<noteq> 0 \<or> n < 6"
  then show "anti_crossing_clique n = Inl (ValueError ''num_variables must be an even number >= 6'', None)"
    by (simp add: anti_crossing_clique_def)
next
  fix s x
  assume v: "\<not> (n mod 2 \<noteq> 0 \<or> n < 6)"
  show "anti_crossing_clique n \<noteq> Inl (ValueError s, x)"
  proof
    assume "anti_crossing_clique n = Inl (ValueError s, x)"
    from anti_crossing_clique_failures [OF this] v show False by simp
  qed
next
  assume "\<not> (n mod 2 \<noteq> 0 \<or> n < 6)" and "n < 2 ^ 54"
  then show "\<exists>m. anti_crossing_clique n = Inr m"
    by (intro anti_crossing_clique_returns) simp_all
next
  assume "n mod 2 \<noteq> 0 \<or> n < 8"
  then show "anti_crossing_loops n = Inl (ValueError ''num_variables must be an even number >= 8'', None)"
    by (simp add: anti_crossing_loops_def)
next
  fix s x
  assume v: "\<not> (n mod 2 \<noteq> 0 \<or> n < 8)"
  show "anti_crossing_loops n \<noteq> Inl (ValueError s, x)"
  proof
    assume "anti_crossing_loops n = Inl (ValueError s, x)"
    from anti_crossing_loops_failures [OF this] v show False by simp
  qed
next
  assume "\<not> (n mod 2 \<noteq> 0 \<or> n < 8)" and "n < 2 ^ 54"
  then show "\<exists>m. anti_crossing_loops n = Inr m"
    by (intro anti_crossing_loops_returns) simp_all
qed

theorem invalid_argument_exactly_witness:
  "anti_crossing_clique 5 = Inl (ValueError ''num_variables must be an even number >= 6'', None) \<and>
   anti_crossing_clique 4 = Inl (ValueError ''num_variables must be an even number >= 6'', None) \<and>
   (\<exists>m. anti_crossing_clique 6 = Inr m) \<and>
   anti_crossing_loops 7 = Inl (ValueError ''num_variables must be an even number >= 8'', None) \<and>
   anti_crossing_loops 6 = Inl (ValueError ''num_variables must be an even number >= 8'', None) \<and>
   (\<exists>m. anti_crossing_loops 8 = Inr m)"
  using invalid_argument_exactly [of 5] invalid_argument_exactly [of 4]
    invalid_argument_exactly [of 6] invalid_argument_exactly [of 7]
    invalid_argument_exactly [of 8]
  by simp

subsection \<open>Distinct endpoints of every edge operation\<close>

text \<open>
  Claim C8. Under the size checks every edge operation of either generator is called with
  two distinct endpoints: in \<^verbatim>\<open>anti_crossing_clique\<close> the half \<^verbatim>\<open>hf\<close> is at least 3,
  the inner loop only visits \<open>m > n\<close> and \<open>n + hf \<noteq> n\<close>; in \<^verbatim>\<open>anti_crossing_loops\<close> the
  quarter \<^verbatim>\<open>hf\<close> is at least 2, so \<open>(n + 1) mod hf \<noteq> n\<close> and every offset is positive.
  Hence an iteration succeeds from every model, and on no input at all does a generator
  fail with the exception of an edge operation. Below \<open>2^54\<close> the generators return a
  model.
\<close>

theorem edge_endpoints_distinct:
  "(n mod 2 = 0 \<and> 6 \<le> n \<longrightarrow>
      (\<forall>hf. int_truediv n 2 = Inr hf \<longrightarrow>
         3 \<le> hf \<and>
         (\<forall>k < nat hf. (\<forall>m \<in> set [k + 1 ..< nat hf]. k < m) \<and> k \<noteq> k + nat hf \<and>
                        (\<forall>b. \<exists>b'. clique_body (nat hf) k b = Inr b'))) \<and>
      (n < 2 ^ 54 \<longrightarrow> (\<exists>m. anti_crossing_clique n = Inr m))) \<and>
   (n mod 2 = 0 \<and> 8 \<le> n \<longrightarrow>
      (\<forall>hf. int_truediv n 4 = Inr hf \<longrightarrow>
         2 \<le> hf \<and>
         (\<forall>k < nat hf. k \<noteq> k + nat hf \<and> k \<noteq> (k + 1) mod nat hf \<and>
                        k + nat hf \<noteq> (k + 1) mod nat hf + nat hf \<and>
                        k \<noteq> k + 2 * nat hf \<and> k + nat hf \<noteq> k + 3 * nat hf \<and>
                        (\<forall>b. \<exists>b'. loops_body (nat hf) k b = Inr b'))) \<and>
      (n < 2 ^ 54 \<longrightarrow> (\<exists>m. anti_crossing_loops n = Inr m))) \<and>
   (\<forall>x. anti_crossing_clique n \<noteq> Inl (EdgeEndpointsEqual, x)) \<and>
   (\<forall>x. anti_crossing_loops n \<noteq> Inl (EdgeEndpointsEqual, x))"
proof (intro conjI impI allI)
  fix hf
  assume v: "n mod 2 = 0 \<and> 6 \<le> n" and hf: "int_truediv n 2 = Inr hf"
  from v have "6 \<le> n" by simp
  from int_truediv_half_cases [OF this] hf show 3: "3 \<le> hf" by auto
  fix k
  assume "k < nat hf"
  show "\<forall>m \<in> set [k + 1 ..< nat hf]. k < m" by simp
  show "k \<noteq> k + nat hf" using 3 by simp
  fix b
  show "\<exists>b'. clique_body (nat hf) k b = Inr b'"
    using 3 by (intro clique_body_total) simp
next
  assume "n mod 2 = 0 \<and> 6 \<le> n" and "n < 2 ^ 54"
  then show "\<exists>m. anti_crossing_clique n = Inr m"
    by (intro anti_crossing_clique_returns) simp_all
next
  fix hf
  assume v: "n mod 2 = 0 \<and> 8 \<le> n" and hf: "int_truediv n 4 = Inr hf"
  from v have "8 \<le> n" by simp
  from int_truediv_quarter_cases [OF this] hf show 2: "2 \<le> hf" by auto
  then have q: "2 \<le> nat hf" by simp
  fix k
  assume k: "k < nat hf"
  show "k \<noteq> (k + 1) mod nat hf" using succ_mod_neq [OF k q] by simp
  then show "k + nat hf \<noteq> (k + 1) mod nat hf + nat hf" by simp
  show "k \<noteq> k + nat hf" "k \<noteq> k + 2 * nat hf" "k + nat hf \<noteq> k + 3 * nat hf"
    using q by simp_all
  fix b
  show "\<exists>b'. loops_body (nat hf) k b = Inr b'" using k q by (rule loops_body_total)
next
  assume "n mod 2 = 0 \<and> 8 \<le> n" and "n < 2 ^ 54"
  then show "\<exists>m. anti_crossing_loops n = Inr m"
    by (intro anti_crossing_loops_returns) simp_all
next
  fix x
  show "anti_crossing_clique n \<noteq> Inl (EdgeEndpointsEqual, x)"
  proof
    assume "anti_crossing_clique n = Inl (EdgeEndpointsEqual, x)"
    from anti_crossing_clique_failures [OF this] show False by simp
  qed
  show "anti_crossing_loops n \<noteq> Inl (EdgeEndpointsEqual, x)"
  proof
    assume "anti_crossing_loops n = Inl (EdgeEndpointsEqual, x)"
    from anti_crossing_loops_failures [OF this] show False by simp
  qed
qed

theorem edge_endpoints_distinct_witness:
  "(\<exists>b'. clique_body 4 3 (BinaryQuadraticModel SPIN) = Inr b') \<and>
   (\<exists>m. anti_crossing_clique 8 = Inr m) \<and>
   (\<exists>b'. loops_body 2 1 (BinaryQuadraticModel SPIN) = Inr b') \<and>
   (\<exists>m. anti_crossing_loops 8 = Inr m)"
proof -
  have h: "int_truediv 8 2 = Inr 4" "int_truediv 8 4 = Inr 2"
    by (simp_all add: int_truediv_half_exact int_truediv_quarter_exact)
  have p: "(8::int) mod 2 = 0 \<and> (6::int) \<le> 8" "(8::int) mod 2 = 0 \<and> (8::int) \<le> 8"
    "(8::int) < 2 ^ 54" by simp_all
  note t = edge_endpoints_distinct [of 8]
  from t [THEN conjunct1, rule_format, OF p(1), THEN conjunct1, rule_format, OF h(1)]
  have 1: "\<exists>b'. clique_body 4 3 (BinaryQuadraticModel SPIN) = Inr b'" by simp
  from t [THEN conjunct1, rule_format, OF p(1), THEN conjunct2, rule_format, OF p(3)]
  have 2: "\<exists>m. anti_crossing_clique 8 = Inr m" .
  from t [THEN conjunct2, THEN conjunct1, rule_format, OF p(2), THEN conjunct1, rule_format, OF h(2)]
  have 3: "\<exists>b'. loops_body 2 1 (BinaryQuadraticModel SPIN) = Inr b'" by simp
  from t [THEN conjunct2, THEN conjunct1, rule_format, OF p(2), THEN conjunct2, rule_format, OF p(3)]
  have 4: "\<exists>m. anti_crossing_loops 8 = Inr m" .
  from 1 2 3 4 show ?thesis by blast
qed

subsection \<open>Edge weights of the loops model\<close>

text \<open>
  Claim C10. Every edge of a model returned by \<^verbatim>\<open>anti_crossing_loops\<close> has weight
  \<open>-1\<close>. This includes the cycle edges between \<open>n\<close> and \<open>(n + 1) mod hf\<close>, which for
  \<open>hf = 2\<close> are one edge written twice: the second write overwrites the first. Below
  \<open>2^54\<close> a model is returned.
\<close>

theorem loops_edge_weights:
  assumes "n mod 2 = 0" and "8 \<le> n"
  shows "(\<forall>m. anti_crossing_loops n = Inr m \<longrightarrow>
            (\<forall>e \<in> set (quadratic m). snd e = - 1) \<and>
            (\<forall>hf. int_truediv n 4 = Inr hf \<longrightarrow>
               (\<forall>k < nat hf. get_quadratic m k ((k + 1) mod nat hf) = Some (- 1)))) \<and>
         (n < 2 ^ 54 \<longrightarrow> (\<exists>m. anti_crossing_loops n = Inr m))"
proof (intro conjI impI allI ballI)
  fix m
  assume r: "anti_crossing_loops n = Inr m"
  from anti_crossing_loops_returned [OF assms r] obtain q
    where q: "int_truediv n 4 = Inr q"
      "models m {0 ..< 4 * nat q} ((loops_weights (nat q) (nat q))(0 := 0, nat q := 0))
         (loops_edges (nat q) (nat q)) (ind (loops_edges (nat q) (nat q)))"
    by blast
  show "snd e = - 1" if "e \<in> set (quadratic m)" for e
    using models_quadratic_entry [OF q(2), of "fst e" "snd e"] that by simp
  fix hf k
  assume "int_truediv n 4 = Inr hf" and k: "k < nat hf"
  with q(1) have hf: "hf = q" by simp
  show "get_quadratic m k ((k + 1) mod nat hf) = Some (- 1)"
    unfolding hf
  proof (rule models_get_quadratic [OF q(2)])
    show "edge_key k ((k + 1) mod nat q) \<in> loops_edges (nat q) (nat q)"
      using k hf by (auto simp: loops_edges_def loops_step_edges_def)
  qed
next
  assume "n < 2 ^ 54"
  with assms show "\<exists>m. anti_crossing_loops n = Inr m"
    by (intro anti_crossing_loops_returns)
qed

theorem loops_edge_weights_witness:
  "\<exists>m. anti_crossing_loops 8 = Inr m \<and> get_quadratic m 0 1 = Some (- 1) \<and>
     get_quadratic m 1 0 = Some (- 1)"
proof -
  have h: "int_truediv 8 4 = Inr 2" by (simp add: int_truediv_quarter_exact)
  have p: "(8::int) mod 2 = 0" "(8::int) \<le> 8" "(8::int) < 2 ^ 54" by simp_all
  note t = loops_edge_weights [OF p(1,2)]
  from t p(3) obtain m where m: "anti_crossing_loops 8 = Inr m" by blast
  from t m h have c: "\<forall>k < nat 2. get_quadratic m k ((k + 1) mod nat 2) = Some (- 1)"
    by blast
  from c [rule_format, of 0] c [rule_format, of 1]
  have "get_quadratic m 0 1 = Some (- 1)" "get_quadratic m 1 0 = Some (- 1)"
    by simp_all
  with m show ?thesis by blast
qed

subsection \<open>The energy of a model with pendant nodes\<close>

lemma sum_list_alist:
  assumes "distinct (map fst al)"
  shows "(\<Sum>(k, b) \<leftarrow> al. f k b) = (\<Sum>k \<in> fst ` set al. f k (the (map_of al k)))"
  using assms
proof (induction al)
  case Nil
  then show ?case by simp
next
  case (Cons p al)
  obtain k b where p: "p = (k, b)" by (cases p)
  from Cons.prems p have k: "k \<notin> fst ` set al" and d: "distinct (map fst al)" by simp_all
  have "(\<Sum>k' \<in> fst ` set al. f k' (the (map_of (p # al) k')))
          = (\<Sum>k' \<in> fst ` set al. f k' (the (map_of al k')))"
    using k by (intro sum.cong) (auto simp: p)
  then show ?case
    using k Cons.IH [OF d] by (simp add: p)
qed

lemma energy_models:
  assumes "models m R W K E"
  shows "energy m s = (\<Sum>v \<in> R. W v * s v) + (\<Sum>e \<in> K. E e * s (fst e) * s (snd e))"
proof -
  have d: "distinct (map fst (linear m))" "distinct (map fst (quadratic m))"
    and R: "nodes m = R" and K: "edges m = K" and E: "edge_weight m = E"
    using assms by (simp_all add: models_def)
  have "(\<Sum>(v, b) \<leftarrow> linear m. b * s v)
          = (\<Sum>v \<in> fst ` set (linear m). the (map_of (linear m) v) * s v)"
    using d(1) by (rule sum_list_alist)
  also have "\<dots> = (\<Sum>v \<in> R. W v * s v)"
    unfolding R [symmetric] nodes_def
  proof (rule sum.cong [OF refl])
    fix v assume "v \<in> fst ` set (linear m)"
    then have "v \<in> R" using R by (simp add: nodes_def)
    then show "the (map_of (linear m) v) * s v = W v * s v"
      by (simp add: models_linear [OF assms])
  qed
  finally have lin: "(\<Sum>(v, b) \<leftarrow> linear m. b * s v) = (\<Sum>v \<in> R. W v * s v)" .
  have "(\<Sum>((u, v), b) \<leftarrow> quadratic m. b * s u * s v)
          = (\<Sum>(e, b) \<leftarrow> quadratic m. b * s (fst e) * s (snd e))"
    by (rule arg_cong [where f = sum_list], rule map_cong) auto
  also have "\<dots> = (\<Sum>e \<in> fst ` set (quadratic m). the (map_of (quadratic m) e) * s (fst e) * s (snd e))"
    using d(2) by (rule sum_list_alist)
  also have "\<dots> = (\<Sum>e \<in> K. E e * s (fst e) * s (snd e))"
    unfolding K [symmetric] edges_def
  proof (rule sum.cong [OF refl])
    fix e assume "e \<in> fst ` set (quadratic m)"
    then obtain w where "(e, w) \<in> set (quadratic m)" by force
    with d(2) have "map_of (quadratic m) e = Some w" by (rule map_of_is_SomeI)
    then have "the (map_of (quadratic m) e) = edge_weight m e"
      by (simp add: edge_weight_def)
    then show "the (map_of (quadratic m) e) * s (fst e) * s (snd e) = E e * s (fst e) * s (snd e)"
      using E by simp
  qed
  finally show ?thesis
    using lin by (simp add: energy_def)
qed

lemma spin_product_bound:
  fixes a b :: int
  assumes "a = 1 \<or> a = - 1" "b = 1 \<or> b = - 1"
  shows "- 1 \<le> - (a * b)"
  using assms by auto

lemma pendant_term_bound:
  fixes a b w :: int
  assumes "a = 1 \<or> a = - 1" "b = 1 \<or> b = - 1" "w = 0 \<or> w = 1"
  shows "w - 1 - 1 \<le> w * a + - 1 * b - a * b"
  using assms by auto

lemma pendant_ground_state:
  fixes s :: "nat \<Rightarrow> int"
  assumes m: "models m {0 ..< 2 * k} W K (ind K)"
    and W1: "\<And>v. v < k \<Longrightarrow> W v = 0 \<or> W v = 1"
    and W2: "\<And>v. v < k \<Longrightarrow> W (v + k) = - 1"
    and P: "\<And>v. v < k \<Longrightarrow> (v, v + k) \<in> K"
    and Kb: "\<And>u v. (u, v) \<in> K \<Longrightarrow> u < 2 * k \<and> v < 2 * k"
    and s: "\<And>v. v < 2 * k \<Longrightarrow> s v = 1 \<or> s v = - 1"
  shows "energy m (\<lambda>_. 1) \<le> energy m s"
proof -
  let ?P = "(\<lambda>v. (v, v + k)) ` {0 ..< k}"
  define G where "G t = (\<Sum>v \<in> {0 ..< k}. W v * t v + - 1 * t (v + k) - t v * t (v + k))"
    for t :: "nat \<Rightarrow> int"
  define H where "H t = (\<Sum>e \<in> K - ?P. - (t (fst e) * t (snd e)))" for t :: "nat \<Rightarrow> int"
  have finK: "finite K"
    using m by (auto simp: models_def edges_def)
  have sub: "?P \<subseteq> K" using P by auto
  have decomp: "energy m t = G t + H t" for t :: "nat \<Rightarrow> int"
  proof -
    have "(\<Sum>v \<in> {0 ..< 2 * k}. W v * t v)
            = (\<Sum>v \<in> {0 ..< k}. W v * t v) + (\<Sum>v \<in> {0 + k ..< k + k}. W v * t v)"
      by (simp add: mult_2 sum.atLeastLessThan_concat)
    also have "(\<Sum>v \<in> {0 + k ..< k + k}. W v * t v) = (\<Sum>v \<in> {0 ..< k}. W (v + k) * t (v + k))"
      by (rule sum.shift_bounds_nat_ivl)
    also have "\<dots> = (\<Sum>v \<in> {0 ..< k}. - 1 * t (v + k))"
      by (rule sum.cong [OF refl]) (simp add: W2)
    finally have lin: "(\<Sum>v \<in> {0 ..< 2 * k}. W v * t v)
            = (\<Sum>v \<in> {0 ..< k}. W v * t v) + (\<Sum>v \<in> {0 ..< k}. - 1 * t (v + k))" .
    have "(\<Sum>e \<in> K. ind K e * t (fst e) * t (snd e)) = (\<Sum>e \<in> K. - (t (fst e) * t (snd e)))"
      by (rule sum.cong [OF refl]) (simp add: ind_def)
    also have "\<dots> = (\<Sum>e \<in> K - ?P. - (t (fst e) * t (snd e))) + (\<Sum>e \<in> ?P. - (t (fst e) * t (snd e)))"
      using sub finK by (rule sum.subset_diff)
    also have "(\<Sum>e \<in> ?P. - (t (fst e) * t (snd e))) = (\<Sum>v \<in> {0 ..< k}. - (t v * t (v + k)))"
      by (subst sum.reindex) (auto simp: inj_on_def)
    finally have quad: "(\<Sum>e \<in> K. ind K e * t (fst e) * t (snd e))
            = H t + (\<Sum>v \<in> {0 ..< k}. - (t v * t (v + k)))"
      by (simp add: H_def)
    show ?thesis
      unfolding energy_models [OF m] lin quad G_def
      by (simp add: sum.distrib sum_subtractf sum_negf)
  qed
  have "G (\<lambda>_. 1) \<le> G s"
    unfolding G_def
  proof (rule sum_mono)
    fix v assume "v \<in> {0 ..< k}"
    then have v: "v < k" by simp
    then have "s v = 1 \<or> s v = - 1" "s (v + k) = 1 \<or> s (v + k) = - 1" by (simp_all add: s)
    from pendant_term_bound [OF this W1 [OF v]]
    show "W v * 1 + - 1 * 1 - 1 * 1 \<le> W v * s v + - 1 * s (v + k) - s v * s (v + k)" by simp
  qed
  moreover have "H (\<lambda>_. 1) \<le> H s"
    unfolding H_def
  proof (rule sum_mono)
    fix e assume "e \<in> K - ?P"
    then have "(fst e, snd e) \<in> K" by simp
    from Kb [OF this] have "s (fst e) = 1 \<or> s (fst e) = - 1" "s (snd e) = 1 \<or> s (snd e) = - 1"
      by (simp_all add: s)
    from spin_product_bound [OF this] show "- (1 * 1) \<le> - (s (fst e) * s (snd e))" by simp
  qed
  ultimately show ?thesis by (simp add: decomp)
qed

lemma clique_ground_state:
  assumes "n mod 2 = 0" "6 \<le> n" and r: "anti_crossing_clique n = Inr m"
  shows "vartype m = SPIN \<and>
           (\<forall>s. (\<forall>v \<in> set (variables m). s v = 1 \<or> s v = - 1) \<longrightarrow>
                energy m (\<lambda>_. 1) \<le> energy m s)"
proof -
  from anti_crossing_clique_returned [OF assms] obtain hf
    where hf: "3 \<le> nat hf"
      "models m {0 ..< 2 * nat hf} ((clique_weights (nat hf) (nat hf))(1 := 0))
         (clique_edges (nat hf) (nat hf)) (ind (clique_edges (nat hf) (nat hf)))"
    by blast
  define h where "h = nat hf"
  let ?W = "(clique_weights h h)(1 := 0)"
  from hf have h: "3 \<le> h"
    and m: "models m {0 ..< 2 * h} ?W (clique_edges h h) (ind (clique_edges h h))"
    by (simp_all add: h_def)
  have "energy m (\<lambda>_. 1) \<le> energy m s" if "\<forall>v \<in> set (variables m). s v = 1 \<or> s v = - 1" for s
  proof (rule pendant_ground_state [OF m])
    show "?W v = 0 \<or> ?W v = 1" if "v < h" for v
      using that by (simp add: clique_weights_def)
    show "?W (v + h) = - 1" if "v < h" for v
      using that h by (simp add: clique_weights_def)
    show "(v, v + h) \<in> clique_edges h h" if "v < h" for v
      using that by (simp add: clique_edges_def)
    show "u < 2 * h \<and> v < 2 * h" if "(u, v) \<in> clique_edges h h" for u v
      using that by (auto simp: clique_edges_def)
    show "s v = 1 \<or> s v = - 1" if "v < 2 * h" for v
      using that \<open>\<forall>v \<in> set (variables m). s v = 1 \<or> s v = - 1\<close> models_variables(1) [OF m]
      by simp
  qed
  moreover have "vartype m = SPIN" using m by (simp add: models_def)
  ultimately show ?thesis by blast
qed

lemma loops_edges_bound:
  assumes "(u, v) \<in> loops_edges q q"
  shows "u < 4 * q \<and> v < 4 * q"
proof -
  from assms obtain n where n: "n < q" "(u, v) \<in> loops_step_edges q n"
    by (auto simp: loops_edges_def)
  have "(n + 1) mod q < q" using n(1) by (intro mod_less_divisor) simp
  then have "Suc n mod q < 4 * q" "Suc n mod q < 3 * q" by simp_all
  with n show ?thesis
    by (auto simp: loops_step_edges_def edge_key_def min_def max_def split: if_splits)
qed

lemma loops_pendant_edges:
  assumes "v < 2 * q"
  shows "(v, v + 2 * q) \<in> loops_edges q q"
proof (cases "v < q")
  case True
  have "edge_key v (v + 2 * q) \<in> loops_step_edges q v"
    by (simp add: loops_step_edges_def)
  then have "(v, v + 2 * q) \<in> loops_step_edges q v" by (simp add: edge_key_def)
  with True show ?thesis by (auto simp: loops_edges_def)
next
  case False
  define n where "n = v - q"
  have n: "n < q" "v = n + q" using False assms by (simp_all add: n_def)
  have "edge_key (n + q) (n + 3 * q) \<in> loops_step_edges q n"
    by (simp add: loops_step_edges_def)
  then have "(n + q, n + 3 * q) \<in> loops_step_edges q n" by (simp add: edge_key_def)
  moreover have "(v, v + 2 * q) = (n + q, n + 3 * q)" using n(2) by simp
  ultimately have "(v, v + 2 * q) \<in> loops_step_edges q n" by (simp only:)
  with n(1) show ?thesis by (auto simp: loops_edges_def)
qed

lemma loops_ground_state:
  assumes "n mod 2 = 0" "8 \<le> n" and r: "anti_crossing_loops n = Inr m"
  shows "vartype m = SPIN \<and>
           (\<forall>s. (\<forall>v \<in> set (variables m). s v = 1 \<or> s v = - 1) \<longrightarrow>
                energy m (\<lambda>_. 1) \<le> energy m s)"
proof -
  from anti_crossing_loops_returned [OF assms] obtain hf
    where hf: "2 \<le> nat hf"
      "models m {0 ..< 4 * nat hf} ((loops_weights (nat hf) (nat hf))(0 := 0, nat hf := 0))
         (loops_edges (nat hf) (nat hf)) (ind (loops_edges (nat hf) (nat hf)))"
    by blast
  define q where "q = nat hf"
  let ?W = "(loops_weights q q)(0 := 0, q := 0)"
  from hf have q: "2 \<le> q"
    and m: "models m {0 ..< 4 * q} ?W (loops_edges q q) (ind (loops_edges q q))"
    by (simp_all add: q_def)
  have m': "models m {0 ..< 2 * (2 * q)} ?W (loops_edges q q) (ind (loops_edges q q))"
    using m by simp
  have "energy m (\<lambda>_. 1) \<le> energy m s" if "\<forall>v \<in> set (variables m). s v = 1 \<or> s v = - 1" for s
  proof (rule pendant_ground_state [OF m'])
    show "?W v = 0 \<or> ?W v = 1" if "v < 2 * q" for v
      using that by (auto simp: loops_weights_def)
    show "?W (v + 2 * q) = - 1" if "v < 2 * q" for v
      using that q by (auto simp: loops_weights_def)
    show "(v, v + 2 * q) \<in> loops_edges q q" if "v < 2 * q" for v
      using that by (rule loops_pendant_edges)
    show "u < 2 * (2 * q) \<and> v < 2 * (2 * q)" if "(u, v) \<in> loops_edges q q" for u v
      using loops_edges_bound [OF that] by simp
    show "s v = 1 \<or> s v = - 1" if "v < 2 * (2 * q)" for v
      using that \<open>\<forall>v \<in> set (variables m). s v = 1 \<or> s v = - 1\<close> models_variables(1) [OF m]
      by simp
  qed
  moreover have "vartype m = SPIN" using m by (simp add: models_def)
  ultimately show ?thesis by blast
qed

lemma anti_crossing_loops_8:
  "anti_crossing_loops 8 =
     Inr \<lparr>vartype = SPIN,
          linear = [(0, 0), (1, 1), (2, 0), (3, 1), (4, - 1), (6, - 1), (5, - 1), (7, - 1)],
          quadratic = [((0, 1), - 1), ((2, 3), - 1), ((0, 4), - 1), ((2, 6), - 1),
                       ((1, 3), - 1), ((1, 5), - 1), ((3, 7), - 1)]\<rparr>"
  by (simp add: bqm_eval)

text \<open>
  Claim C1. For every valid size, a model that a generator returns has the spin variable
  type, and the assignment that gives every variable the value \<open>+1\<close> has the least energy
  among all assignments of \<open>-1\<close> and \<open>+1\<close> to the variables of the model. Below \<open>2^54\<close> a
  model is returned.
\<close>

theorem all_ones_ground_state:
  "(n mod 2 = 0 \<and> 6 \<le> n \<longrightarrow>
      (\<forall>m. anti_crossing_clique n = Inr m \<longrightarrow>
         vartype m = SPIN \<and>
         (\<forall>s. (\<forall>v \<in> set (variables m). s v = 1 \<or> s v = - 1) \<longrightarrow>
              energy m (\<lambda>_. 1) \<le> energy m s)) \<and>
      (n < 2 ^ 54 \<longrightarrow> (\<exists>m. anti_crossing_clique n = Inr m))) \<and>
   (n mod 2 = 0 \<and> 8 \<le> n \<longrightarrow>
      (\<forall>m. anti_crossing_loops n = Inr m \<longrightarrow>
         vartype m = SPIN \<and>
         (\<forall>s. (\<forall>v \<in> set (variables m). s v = 1 \<or> s v = - 1) \<longrightarrow>
              energy m (\<lambda>_. 1) \<le> energy m s)) \<and>
      (n < 2 ^ 54 \<longrightarrow> (\<exists>m. anti_crossing_loops n = Inr m)))"
proof (rule conjI; rule impI; rule conjI)
  assume "n mod 2 = 0 \<and> 6 \<le> n"
  then have v: "n mod 2 = 0" "6 \<le> n" by simp_all
  show "\<forall>m. anti_crossing_clique n = Inr m \<longrightarrow>
         vartype m = SPIN \<and>
         (\<forall>s. (\<forall>v \<in> set (variables m). s v = 1 \<or> s v = - 1) \<longrightarrow>
              energy m (\<lambda>_. 1) \<le> energy m s)"
    using clique_ground_state [OF v] by (intro allI impI)
  show "n < 2 ^ 54 \<longrightarrow> (\<exists>m. anti_crossing_clique n = Inr m)"
    using anti_crossing_clique_returns [OF v] by (intro impI)
next
  assume "n mod 2 = 0 \<and> 8 \<le> n"
  then have v: "n mod 2 = 0" "8 \<le> n" by simp_all
  show "\<forall>m. anti_crossing_loops n = Inr m \<longrightarrow>
         vartype m = SPIN \<and>
         (\<forall>s. (\<forall>v \<in> set (variables m). s v = 1 \<or> s v = - 1) \<longrightarrow>
              energy m (\<lambda>_. 1) \<le> energy m s)"
    using loops_ground_state [OF v] by (intro allI impI)
  show "n < 2 ^ 54 \<longrightarrow> (\<exists>m. anti_crossing_loops n = Inr m)"
    using anti_crossing_loops_returns [OF v] by (intro impI)
qed

theorem all_ones_ground_state_witness:
  "(\<exists>m. anti_crossing_clique 8 = Inr m \<and> vartype m = SPIN \<and>
      energy m (\<lambda>_. 1) \<le> energy m (\<lambda>v. if v < 4 then - 1 else 1)) \<and>
   (\<exists>m. anti_crossing_loops 8 = Inr m \<and> vartype m = SPIN \<and>
      energy m (\<lambda>_. 1) = - 9 \<and>
      energy m (\<lambda>_. 1) \<le> energy m (\<lambda>v. if v < 4 then - 1 else 1))"
proof -
  let ?s = "\<lambda>v::nat. if v < 4 then - 1 else 1 :: int"
  have p: "(8::int) mod 2 = 0 \<and> (6::int) \<le> 8" "(8::int) mod 2 = 0 \<and> (8::int) \<le> 8"
    "(8::int) < 2 ^ 54"
    by simp_all
  note c = all_ones_ground_state [of 8, THEN conjunct1, rule_format, OF p(1)]
  note l = all_ones_ground_state [of 8, THEN conjunct2, rule_format, OF p(2)]
  from c [THEN conjunct2, rule_format, OF p(3)] obtain m
    where m: "anti_crossing_clique 8 = Inr m" ..
  from c [THEN conjunct1, rule_format, OF m]
  have ms: "vartype m = SPIN"
    and mm: "\<forall>s. (\<forall>v \<in> set (variables m). s v = 1 \<or> s v = - 1) \<longrightarrow> energy m (\<lambda>_. 1) \<le> energy m s"
    by blast+
  from mm [rule_format, of ?s] have 1: "energy m (\<lambda>_. 1) \<le> energy m ?s" by simp
  from l [THEN conjunct2, rule_format, OF p(3)] obtain m'
    where m': "anti_crossing_loops 8 = Inr m'" ..
  from l [THEN conjunct1, rule_format, OF m']
  have ms': "vartype m' = SPIN"
    and mm': "\<forall>s. (\<forall>v \<in> set (variables m'). s v = 1 \<or> s v = - 1) \<longrightarrow> energy m' (\<lambda>_. 1) \<le> energy m' s"
    by blast+
  from mm' [rule_format, of ?s] have 2: "energy m' (\<lambda>_. 1) \<le> energy m' ?s" by simp
  have 3: "energy m' (\<lambda>_. 1) = - 9"
    using m' unfolding anti_crossing_loops_8 by (auto simp: energy_def)
  from m ms 1 m' ms' 2 3 show ?thesis by blast
qed

subsection \<open>Counting nodes and edges\<close>

lemma card_ordered_pairs: "card {(u, v). u < v \<and> v < (h::nat)} = h choose 2"
proof (induction h)
  case 0
  then show ?case by simp
next
  case (Suc h)
  let ?S = "{(u, v). u < v \<and> v < h}"
  have split: "{(u, v). u < v \<and> v < Suc h} = ?S \<union> (\<lambda>u. (u, h)) ` {..<h}"
    by (auto simp: less_Suc_eq)
  have fin: "finite ?S"
    by (rule finite_subset [of _ "{..<h} \<times> {..<h}"]) auto
  have disj: "?S \<inter> (\<lambda>u. (u, h)) ` {..<h} = {}" by auto
  have "card ((\<lambda>u. (u, h)) ` {..<h}) = h"
    by (simp add: card_image inj_on_def)
  then have "card {(u, v). u < v \<and> v < Suc h} = (h choose 2) + h"
    unfolding split using fin disj Suc.IH by (simp add: card_Un_disjoint)
  also have "\<dots> = Suc h choose 2"
    by (simp add: numeral_2_eq_2)
  finally show ?case .
qed

lemma card_clique_edges: "card (clique_edges h h) = (h choose 2) + h"
proof -
  let ?S = "{(u, v). u < v \<and> v < h}"
  let ?P = "(\<lambda>u. (u, u + h)) ` {..<h}"
  have split: "clique_edges h h = ?S \<union> ?P"
    by (auto simp: clique_edges_def)
  have fin: "finite ?S"
    by (rule finite_subset [of _ "{..<h} \<times> {..<h}"]) auto
  have disj: "?S \<inter> ?P = {}" by auto
  have "card ?P = h" by (simp add: card_image inj_on_def)
  then show ?thesis
    unfolding split using fin disj by (simp add: card_Un_disjoint card_ordered_pairs)
qed

lemma models_lengths:
  assumes "models m R W K E"
  shows "length (linear m) = card R" and "length (quadratic m) = card K"
proof -
  have d: "distinct (map fst (linear m))" "distinct (map fst (quadratic m))"
    and R: "nodes m = R" and K: "edges m = K"
    using assms by (simp_all add: models_def)
  have "card (set (map fst (linear m))) = length (map fst (linear m))"
    using d(1) by (rule distinct_card)
  then show "length (linear m) = card R" using R by (simp add: nodes_def)
  have "card (set (map fst (quadratic m))) = length (map fst (quadratic m))"
    using d(2) by (rule distinct_card)
  then show "length (quadratic m) = card K" using K by (simp add: edges_def)
qed

subsection \<open>Sizes that are not multiples of 4\<close>

lemma anti_crossing_loops_16:
  "anti_crossing_loops 16 =
     Inr \<lparr>vartype = SPIN,
          linear = [(0, 0), (1, 1), (4, 0), (5, 1), (8, - 1), (12, - 1), (2, 1), (6, 1),
                    (9, - 1), (13, - 1), (3, 1), (7, 1), (10, - 1), (14, - 1), (11, - 1),
                    (15, - 1)],
          quadratic = [((0, 1), - 1), ((4, 5), - 1), ((0, 8), - 1), ((4, 12), - 1),
                       ((1, 5), - 1), ((1, 2), - 1), ((5, 6), - 1), ((1, 9), - 1),
                       ((5, 13), - 1), ((2, 3), - 1), ((6, 7), - 1), ((2, 10), - 1),
                       ((6, 14), - 1), ((3, 7), - 1), ((0, 3), - 1), ((4, 7), - 1),
                       ((3, 11), - 1), ((7, 15), - 1)]\<rparr>"
  by (simp add: bqm_eval)





text \<open>
  Claim C2, evaluated at \<open>num_variables = 10\<close>, an input the size check accepts: the
  quarter is \<open>10 div 4 = 2\<close> and the model has the eight nodes \<open>0, \<dots>, 7\<close>; the indices 8
  and 9 are missing from the node set.
\<close>

theorem loops_10_has_eight_nodes:
  "anti_crossing_loops 10 =
     Inr \<lparr>vartype = SPIN,
          linear = [(0, 0), (1, 1), (2, 0), (3, 1), (4, - 1), (6, - 1), (5, - 1), (7, - 1)],
          quadratic = [((0, 1), - 1), ((2, 3), - 1), ((0, 4), - 1), ((2, 6), - 1),
                       ((1, 3), - 1), ((1, 5), - 1), ((3, 7), - 1)]\<rparr>"
  by (simp add: bqm_eval)

theorem loops_10_has_eight_nodes_witness:
  "\<exists>m. anti_crossing_loops 10 = Inr m \<and> variables m = [0, 1, 2, 3, 4, 6, 5, 7] \<and>
     set (variables m) \<noteq> {0 ..< 10}"
proof -
  have "(9::nat) \<in> {0 ..< 10}" by simp
  moreover have "(9::nat) \<notin> set [0, 1, 2, 3, 4, 6, 5, 7]" by simp
  ultimately have "set [0, 1, 2, 3, 4, 6, 5, 7] \<noteq> {0 ..< (10::nat)}" by metis
  then show ?thesis
    using loops_10_has_eight_nodes by (simp add: variables_def)
qed

subsection \<open>The 16-variable loops model\<close>

text \<open>
  Claim C5. In the model of \<^verbatim>\<open>anti_crossing_loops(16)\<close> the nodes are \<open>0, \<dots>, 15\<close>; nodes
  0 and 4 have weight 0, nodes 1, 2, 3, 5, 6, 7 weight 1 and nodes 8 to 15 weight \<open>-1\<close>. The
  edges between the group \<open>0, \<dots>, 3\<close> and the group \<open>4, \<dots>, 7\<close> are exactly \<open>(1, 5)\<close> and
  \<open>(3, 7)\<close>, both of weight \<open>-1\<close>.
\<close>

theorem loops_16_weights_and_cross_links:
  "\<exists>m. anti_crossing_loops 16 = Inr m \<and>
     map (\<lambda>v. map_of (linear m) v) [0 ..< 16] =
       [Some 0, Some 1, Some 1, Some 1, Some 0, Some 1, Some 1, Some 1,
        Some (- 1), Some (- 1), Some (- 1), Some (- 1),
        Some (- 1), Some (- 1), Some (- 1), Some (- 1)] \<and>
     length (linear m) = 16 \<and>
     [e \<leftarrow> quadratic m. fst (fst e) < 4 \<and> 4 \<le> snd (fst e) \<and> snd (fst e) < 8] =
       [((1, 5), - 1), ((3, 7), - 1)] \<and>
     get_quadratic m 1 5 = Some (- 1) \<and> get_quadratic m 3 7 = Some (- 1) \<and>
     get_quadratic m 0 4 = None \<and> get_quadratic m 2 6 = None"
  unfolding anti_crossing_loops_16
  by (simp add: get_quadratic_def edge_key_def upt_rec [of 0] upt_rec [of "Suc _"])

theorem loops_16_weights_and_cross_links_witness:
  "\<exists>m. anti_crossing_loops 16 = Inr m \<and> get_quadratic m 1 5 = Some (- 1) \<and>
     get_quadratic m 0 4 = None"
  using loops_16_weights_and_cross_links by blast

subsection \<open>Structure of the clique model\<close>

lemma anti_crossing_clique_6:
  "anti_crossing_clique 6 =
     Inr \<lparr>vartype = SPIN,
          linear = [(0, 1), (1, 0), (2, 1), (3, - 1), (4, - 1), (5, - 1)],
          quadratic = [((0, 1), - 1), ((0, 2), - 1), ((0, 3), - 1), ((1, 2), - 1),
                       ((1, 4), - 1), ((2, 5), - 1)]\<rparr>"
  by (simp add: bqm_eval)

lemma nat_even_half:
  assumes "n mod 2 = 0" "0 \<le> n"
  shows "2 * nat (n div 2) = nat n"
proof -
  have "2 * (n div 2) = n" using assms(1) by presburger
  then have "nat (2 * (n div 2)) = nat n" by simp
  then show ?thesis using assms(2) by (simp add: nat_mult_distrib)
qed

text \<open>
  Below \<open>2^54\<close> the float quotient is \<open>num_variables div 2\<close>, and the model has the
  structure the docstring describes: an edge of weight \<open>-1\<close> between any two distinct nodes
  below the half and between each node \<open>u\<close> below the half and \<open>u + half\<close>; weight 1 on the
  nodes below the half, except node 1, which has weight 0; weight \<open>-1\<close> on the other nodes.
\<close>

lemma clique_structure_exact:
  "(n mod 2 = 0 \<and> 6 \<le> n \<and> n < 2 ^ 54 \<longrightarrow>
      (\<exists>m. anti_crossing_clique n = Inr m \<and>
         (\<forall>u v. u < nat (n div 2) \<and> v < nat (n div 2) \<and> u \<noteq> v \<longrightarrow>
                  get_quadratic m u v = Some (- 1)) \<and>
         (\<forall>u < nat (n div 2). get_quadratic m u (u + nat (n div 2)) = Some (- 1)) \<and>
         (\<forall>u < nat (n div 2). map_of (linear m) u = Some (if u = 1 then 0 else 1)) \<and>
         (\<forall>u. nat (n div 2) \<le> u \<and> u < nat n \<longrightarrow> map_of (linear m) u = Some (- 1)))) \<and>
   (\<exists>m. anti_crossing_clique 6 = Inr m \<and>
      map (\<lambda>v. map_of (linear m) v) [0 ..< 6] =
        [Some 1, Some 0, Some 1, Some (- 1), Some (- 1), Some (- 1)])"
proof (intro conjI impI)
  assume "n mod 2 = 0 \<and> 6 \<le> n \<and> n < 2 ^ 54"
  then have v: "n mod 2 = 0" "6 \<le> n" "n < 2 ^ 54" by simp_all
  define h where "h = nat (n div 2)"
  from anti_crossing_clique_exact [OF v h_def] obtain m
    where m: "anti_crossing_clique n = Inr m"
      "models m {0 ..< 2 * h} ((clique_weights h h)(1 := 0)) (clique_edges h h)
         (ind (clique_edges h h))"
    by blast
  have n: "2 * h = nat n" unfolding h_def using v by (intro nat_even_half) simp_all
  have 1: "get_quadratic m u v = Some (- 1)" if "u < h \<and> v < h \<and> u \<noteq> v" for u v
  proof (rule models_get_quadratic [OF m(2)])
    show "edge_key u v \<in> clique_edges h h"
      using that by (auto simp: edge_key_def clique_edges_def min_def max_def)
  qed
  have 2: "get_quadratic m u (u + h) = Some (- 1)" if "u < h" for u
  proof (rule models_get_quadratic [OF m(2)])
    show "edge_key u (u + h) \<in> clique_edges h h"
      using that by (auto simp: edge_key_def clique_edges_def)
  qed
  have 3: "map_of (linear m) u = Some (if u = 1 then 0 else 1)" if "u < h" for u
    using that by (simp add: models_linear [OF m(2)] clique_weights_def)
  have 4: "map_of (linear m) u = Some (- 1)" if "h \<le> u \<and> u < nat n" for u
    using that v n by (auto simp: models_linear [OF m(2)] clique_weights_def)
  from m(1) 1 2 3 4
  show "\<exists>m. anti_crossing_clique n = Inr m \<and>
         (\<forall>u v. u < nat (n div 2) \<and> v < nat (n div 2) \<and> u \<noteq> v \<longrightarrow>
                  get_quadratic m u v = Some (- 1)) \<and>
         (\<forall>u < nat (n div 2). get_quadratic m u (u + nat (n div 2)) = Some (- 1)) \<and>
         (\<forall>u < nat (n div 2). map_of (linear m) u = Some (if u = 1 then 0 else 1)) \<and>
         (\<forall>u. nat (n div 2) \<le> u \<and> u < nat n \<longrightarrow> map_of (linear m) u = Some (- 1))"
    unfolding h_def by blast
next
  show "\<exists>m. anti_crossing_clique 6 = Inr m \<and>
      map (\<lambda>v. map_of (linear m) v) [0 ..< 6] =
        [Some 1, Some 0, Some 1, Some (- 1), Some (- 1), Some (- 1)]"
    unfolding anti_crossing_clique_6 by (simp add: upt_rec [of 0] upt_rec [of "Suc _"])
qed

text \<open>Below \<open>2^54\<close> the model has \<open>C(n/2, 2) + n/2\<close> edges and the \<open>n\<close> nodes
  \<open>0, \<dots>, n - 1\<close>.\<close>

lemma clique_counts_exact:
  assumes "n mod 2 = 0" and "6 \<le> n" and "n < 2 ^ 54"
  shows "\<exists>m. anti_crossing_clique n = Inr m \<and>
           length (quadratic m) = (nat (n div 2) choose 2) + nat (n div 2) \<and>
           distinct (map fst (quadratic m)) \<and>
           length (linear m) = nat n \<and>
           distinct (variables m) \<and> set (variables m) = {0 ..< nat n}"
proof -
  define h where "h = nat (n div 2)"
  from anti_crossing_clique_exact [OF assms h_def] obtain m
    where m: "anti_crossing_clique n = Inr m"
      "models m {0 ..< 2 * h} ((clique_weights h h)(1 := 0)) (clique_edges h h)
         (ind (clique_edges h h))"
    by blast
  have n: "2 * h = nat n" unfolding h_def using assms(1,2) by (intro nat_even_half) simp_all
  have "length (quadratic m) = (h choose 2) + h"
    using models_lengths(2) [OF m(2)] by (simp add: card_clique_edges)
  moreover have "length (linear m) = nat n"
    using models_lengths(1) [OF m(2)] n by simp
  moreover have "distinct (map fst (quadratic m))"
    using m(2) by (simp add: models_def)
  moreover have "distinct (variables m)" "set (variables m) = {0 ..< nat n}"
    using models_variables [OF m(2)] n by simp_all
  ultimately show ?thesis using m(1) unfolding h_def by blast
qed

lemma anti_crossing_clique_overflows:
  "anti_crossing_clique (4 * 10 ^ 308) = Inl (OverflowError, Some (BinaryQuadraticModel SPIN))"
proof (rule anti_crossing_clique_overflow)
  show "int_truediv (4 * 10 ^ 308) 2 = Inl OverflowError" by (rule int_truediv_overflows)
qed simp_all

lemma anti_crossing_clique_rounded:
  "\<exists>m. anti_crossing_clique (2 ^ 54 + 2) = Inr m \<and>
     models m {0 ..< 2 * 2 ^ 53} ((clique_weights (2 ^ 53) (2 ^ 53))(1 := 0))
       (clique_edges (2 ^ 53) (2 ^ 53)) (ind (clique_edges (2 ^ 53) (2 ^ 53)))"
proof -
  have v: "(2 ^ 54 + 2) mod 2 = (0::int)" "(6::int) \<le> 2 ^ 54 + 2" by simp_all
  have h: "(2 ^ 53 :: nat) = nat (2 ^ 53)" by simp
  from anti_crossing_clique_models [OF v int_truediv_half_rounds h] show ?thesis by blast
qed

text \<open>
  Claim C3, evaluated at \<open>num_variables = 2^54 + 2\<close> and at \<open>4 * 10^308\<close>, two sizes
  that pass the check. At \<open>2^54 + 2\<close> the float quotient is \<open>2^53\<close>, not the half
  \<open>2^53 + 1\<close>: node \<open>2^53\<close>, which is below the half, has weight \<open>-1\<close>, and the last
  index is no node of the model. At \<open>4 * 10^308\<close> the division
  raises OverflowError after the model was constructed, and no model is returned.
\<close>

theorem clique_float_half_structure:
  "(\<exists>m. anti_crossing_clique (2 ^ 54 + 2) = Inr m \<and>
      (2 ^ 53 :: nat) < nat ((2 ^ 54 + 2) div 2) \<and>
      map_of (linear m) (2 ^ 53) = Some (- 1) \<and>
      map_of (linear m) (nat (2 ^ 54 + 2) - 1) = None) \<and>
   anti_crossing_clique (4 * 10 ^ 308) = Inl (OverflowError, Some (BinaryQuadraticModel SPIN))"
proof -
  from anti_crossing_clique_rounded obtain m
    where m: "anti_crossing_clique (2 ^ 54 + 2) = Inr m"
      "models m {0 ..< 2 * 2 ^ 53} ((clique_weights (2 ^ 53) (2 ^ 53))(1 := 0))
         (clique_edges (2 ^ 53) (2 ^ 53)) (ind (clique_edges (2 ^ 53) (2 ^ 53)))"
    by blast
  have "map_of (linear m) (2 ^ 53) = Some (- 1)"
    by (simp add: models_linear [OF m(2)] clique_weights_def)
  moreover have "map_of (linear m) (nat (2 ^ 54 + 2) - 1) = None"
    by (simp add: models_linear [OF m(2)])
  moreover have "(2 ^ 53 :: nat) < nat ((2 ^ 54 + 2) div 2)" by simp
  ultimately show ?thesis using m(1) anti_crossing_clique_overflows by blast
qed

theorem clique_float_half_structure_witness:
  "\<not> (\<exists>m. anti_crossing_clique (4 * 10 ^ 308) = Inr m) \<and>
   \<not> (\<exists>m. anti_crossing_clique (2 ^ 54 + 2) = Inr m \<and> map_of (linear m) (2 ^ 53) = Some 1)"
  using clique_float_half_structure by auto

text \<open>
  Claim C6, evaluated at \<open>num_variables = 2^54 + 2\<close> and at \<open>4 * 10^308\<close>. At \<open>2^54 + 2\<close>
  the model has \<open>2^54\<close> nodes, two fewer than \<open>num_variables\<close>, and
  \<open>C(2^53, 2) + 2^53\<close> edges, the count for the half \<open>2^53\<close> and not for \<open>2^53 + 1\<close>. At
  \<open>4 * 10^308\<close> no model is returned.
\<close>

theorem clique_float_half_counts:
  "(\<exists>m. anti_crossing_clique (2 ^ 54 + 2) = Inr m \<and>
      length (linear m) = 2 ^ 54 \<and> nat (2 ^ 54 + 2) = 2 ^ 54 + 2 \<and>
      length (quadratic m) = (2 ^ 53 choose 2) + 2 ^ 53 \<and>
      nat ((2 ^ 54 + 2) div 2) = 2 ^ 53 + 1) \<and>
   anti_crossing_clique (4 * 10 ^ 308) = Inl (OverflowError, Some (BinaryQuadraticModel SPIN))"
proof -
  from anti_crossing_clique_rounded obtain m
    where m: "anti_crossing_clique (2 ^ 54 + 2) = Inr m"
      "models m {0 ..< 2 * 2 ^ 53} ((clique_weights (2 ^ 53) (2 ^ 53))(1 := 0))
         (clique_edges (2 ^ 53) (2 ^ 53)) (ind (clique_edges (2 ^ 53) (2 ^ 53)))"
    by blast
  have "length (linear m) = 2 ^ 54"
    using models_lengths(1) [OF m(2)] by simp
  moreover have "length (quadratic m) = (2 ^ 53 choose 2) + 2 ^ 53"
    using models_lengths(2) [OF m(2)] by (simp only: card_clique_edges)
  moreover have "nat (2 ^ 54 + 2) = (2 ^ 54 + 2 :: nat)" "nat ((2 ^ 54 + 2) div 2) = (2 ^ 53 + 1 :: nat)"
    by simp_all
  ultimately show ?thesis using m(1) anti_crossing_clique_overflows by blast
qed

theorem clique_float_half_counts_witness:
  "\<not> (\<exists>m. anti_crossing_clique (4 * 10 ^ 308) = Inr m) \<and>
   \<not> (\<exists>m. anti_crossing_clique (2 ^ 54 + 2) = Inr m \<and> length (linear m) = nat (2 ^ 54 + 2))"
  using clique_float_half_counts by auto

end
